theory Spec2Isabelle
  imports Main
begin

section \<open>Tokens (token.h)\<close>

text \<open>
  The enumeration \<open>TokenType\<close> of token.h. The constructors keep the names of the
  enumerators; those that clash with a constant of HOL carry the suffix \<open>T\<close>
  (\<open>PlusT\<close>, \<open>StringT\<close>, \<open>FalseT\<close>, \<open>IfT\<close>, \<open>LetT\<close>, \<open>NilT\<close>, \<open>TrueT\<close>).
\<close>

text \<open>
  Modelled from the spec: the enumerator \<open>True\<close> is missing from the text of token.h
  (some of its lines are damaged), but parser.cpp matches on \<open>TokenType::True\<close> and the
  data model of the specification lists \<open>True\<close> beside \<open>False\<close> among the literal
  kinds; it is the constructor \<open>TrueT\<close> below.
\<close>

datatype TokenType =
    LeftParen | RightParen | LeftBrace | RightBrace
  | Comma | Dot | Minus | PlusT | Semicolon | Slash | Star
  | Bang | BangEqual
  | Equal | EqualEqual
  | Greater | GreaterEqual
  | Less | LessEqual
  | Identifier | StringT | Number
  | And | Break | Class | Continue | Do | Else | ElseIf
  | FalseT | Fun | For | IfT | In | LetT | NilT | Or
  | Print | Return | Super | Static | Struct | Switch
  | TrueT
  | Eof | Unknown

text \<open>
  A \<open>std::any\<close> value as the parser handles it: the default \<open>nullptr\<close> of a token
  without a literal, a \<open>bool\<close> (the parser itself builds \<open>LiteralExpr(false)\<close> and
  \<open>LiteralExpr(true)\<close>), or a scalar of the lexer, whose type \<open>'v\<close> is left open.
\<close>

datatype 'v any = Nullptr | Boolean bool | Scalar 'v

record 'v Token =
  type :: TokenType
  lexeme :: string
  literal :: "'v any"

text \<open>The constructor \<open>Token(type, lexeme, literal)\<close>.\<close>

definition token :: "TokenType \<Rightarrow> string \<Rightarrow> 'v any \<Rightarrow> 'v Token" where
  "token ty lx lit = \<lparr>type = ty, lexeme = lx, literal = lit\<rparr>"

section \<open>Syntax trees (expr.h)\<close>

datatype 'v Expr =
    LiteralExpr "'v any"
  | UnaryExpr "'v Token" "'v Expr"
  | BinaryExpr "'v Expr" "'v Token" "'v Expr"
  | VariableExpr "'v Token"

text \<open>
  \<open>IfStmt\<close> has two constructors in expr.h: without an else branch
  (\<open>other_stmt_given = false\<close>) and with one; the optional third argument is that branch.
  The initializer of a \<open>VarStmt\<close> is a pointer that may be null.
\<close>

datatype 'v Stmt =
    VarStmt "'v Token" "'v Expr option"
  | ExpressionStmt "'v Expr"
  | PrintStmt "'v Expr"
  | IfStmt "'v Expr" "'v Stmt" "'v Stmt option"
  | BlockStmt "'v Stmt list"

section \<open>The parser state and its primitives (parser.cpp)\<close>

text \<open>
  A \<open>std::runtime_error\<close> thrown by the parser is a \<open>SyntaxError\<close> with its message.
  \<open>OutOfBounds\<close> stands for an access \<open>tokens[i]\<close> with \<open>i\<close> outside the vector, which
  C++ leaves undefined.
\<close>

datatype error = SyntaxError string | OutOfBounds

text \<open>
  The members of the class \<open>Parser\<close>: the token vector and the cursor, an unsigned index
  that starts at 0.
\<close>

record 'v Parser =
  tokens :: "'v Token list"
  current :: nat

text \<open>
  Every member function takes the parser state and returns either the error it raised or
  its value with the state it leaves behind.
\<close>

type_synonym ('v, 'a) outcome = "error + 'a \<times> 'v Parser"

definition peek :: "'v Parser \<Rightarrow> ('v, 'v Token) outcome" where
  "peek p =
     (if current p < length (tokens p) then Inr (tokens p ! current p, p)
      else Inl OutOfBounds)"

definition atEnd :: "'v Parser \<Rightarrow> ('v, bool) outcome" where
  "atEnd p =
     (if current p \<ge> length (tokens p) then Inr (True, p)
      else case peek p of
             Inl e \<Rightarrow> Inl e
           | Inr (t, p') \<Rightarrow> Inr (type t = Eof, p'))"

text \<open>
  \<open>tokens[current - 1]\<close>: at \<open>current = 0\<close> the unsigned subtraction wraps around to the
  largest index, which is outside every vector.
\<close>

definition previous :: "'v Parser \<Rightarrow> ('v, 'v Token) outcome" where
  "previous p =
     (if 0 < current p \<and> current p - 1 < length (tokens p)
      then Inr (tokens p ! (current p - 1), p)
      else Inl OutOfBounds)"

definition advance :: "'v Parser \<Rightarrow> ('v, 'v Token) outcome" where
  "advance p =
     (case atEnd p of
        Inl e \<Rightarrow> Inl e
      | Inr (b, p') \<Rightarrow>
          previous (if \<not> b then p'\<lparr>current := current p' + 1\<rparr> else p'))"

definition check :: "TokenType \<Rightarrow> 'v Parser \<Rightarrow> ('v, bool) outcome" where
  "check ty p =
     (case atEnd p of
        Inl e \<Rightarrow> Inl e
      | Inr (b, p') \<Rightarrow>
          if \<not> b then
            (case peek p' of
               Inl e \<Rightarrow> Inl e
             | Inr (t, p'') \<Rightarrow> Inr (type t = ty, p''))
          else Inr (False, p'))"

definition match :: "TokenType \<Rightarrow> 'v Parser \<Rightarrow> ('v, bool) outcome" where
  "match ty p =
     (if current p < length (tokens p) then
        (case check ty p of
           Inl e \<Rightarrow> Inl e
         | Inr (b, p') \<Rightarrow>
             if b then
               (case advance p' of
                  Inl e \<Rightarrow> Inl e
                | Inr (t, p'') \<Rightarrow> Inr (True, p''))
             else Inr (False, p'))
      else Inr (False, p))"

definition consume :: "TokenType \<Rightarrow> string \<Rightarrow> 'v Parser \<Rightarrow> ('v, unit) outcome" where
  "consume ty err p =
     (case match ty p of
        Inl e \<Rightarrow> Inl e
      | Inr (b, p') \<Rightarrow> if \<not> b then Inl (SyntaxError err) else Inr ((), p'))"

text \<open>
  The C++ disjunction \<open>a || b\<close> of two calls that may move the cursor: the second call
  runs, on the state the first one left, only when the first returned false.
\<close>

definition orElse ::
  "('v Parser \<Rightarrow> ('v, bool) outcome) \<Rightarrow> ('v Parser \<Rightarrow> ('v, bool) outcome) \<Rightarrow>
   'v Parser \<Rightarrow> ('v, bool) outcome" where
  "orElse a b p =
     (case a p of
        Inl e \<Rightarrow> Inl e
      | Inr (r, p') \<Rightarrow> if r then Inr (True, p') else b p')"

section \<open>The grammar procedures (parser.cpp)\<close>

text \<open>
  The grammar procedures call each other recursively, so each takes a bound \<open>n\<close> on the
  depth of the calls still allowed and passes \<open>n - 1\<close> to the procedures it calls; the
  result \<open>None\<close> says that the bound was reached. A \<open>while\<close> loop is the recursive
  function \<open>_loop\<close> of its procedure, one call for each test of the loop condition.
\<close>

type_synonym ('v, 'a) run = "('v, 'a) outcome option"

definition andThen ::
  "('v, 'a) run \<Rightarrow> ('a \<Rightarrow> 'v Parser \<Rightarrow> ('v, 'b) run) \<Rightarrow> ('v, 'b) run" where
  "andThen m f =
     (case m of
        None \<Rightarrow> None
      | Some (Inl e) \<Rightarrow> Some (Inl e)
      | Some (Inr (a, p)) \<Rightarrow> f a p)"

definition quote :: string where
  "quote = [CHR 0x27]"

function (sequential) expr :: "nat \<Rightarrow> 'v Parser \<Rightarrow> ('v, 'v Expr) run"
  and equality :: "nat \<Rightarrow> 'v Parser \<Rightarrow> ('v, 'v Expr) run"
  and equality_loop :: "nat \<Rightarrow> 'v Expr \<Rightarrow> 'v Parser \<Rightarrow> ('v, 'v Expr) run"
  and comparison :: "nat \<Rightarrow> 'v Parser \<Rightarrow> ('v, 'v Expr) run"
  and comparison_loop :: "nat \<Rightarrow> 'v Expr \<Rightarrow> 'v Parser \<Rightarrow> ('v, 'v Expr) run"
  and "term" :: "nat \<Rightarrow> 'v Parser \<Rightarrow> ('v, 'v Expr) run"
  and term_loop :: "nat \<Rightarrow> 'v Expr \<Rightarrow> 'v Parser \<Rightarrow> ('v, 'v Expr) run"
  and factor :: "nat \<Rightarrow> 'v Parser \<Rightarrow> ('v, 'v Expr) run"
  and factor_loop :: "nat \<Rightarrow> 'v Expr \<Rightarrow> 'v Parser \<Rightarrow> ('v, 'v Expr) run"
  and unary :: "nat \<Rightarrow> 'v Parser \<Rightarrow> ('v, 'v Expr) run"
  and primary :: "nat \<Rightarrow> 'v Parser \<Rightarrow> ('v, 'v Expr) run"
where
  "expr 0 p = None"
| "expr (Suc n) p = equality n p"
| "equality 0 p = None"
| "equality (Suc n) p =
     andThen (comparison n p) (\<lambda>left p1. equality_loop n left p1)"
| "equality_loop 0 left p = None"
| "equality_loop (Suc n) left p =
     andThen (Some (orElse (match BangEqual) (match EqualEqual) p)) (\<lambda>b p1.
       if b then
         andThen (Some (previous p1)) (\<lambda>op p2.
         andThen (comparison n p2) (\<lambda>right p3.
         equality_loop n (BinaryExpr left op right) p3))
       else Some (Inr (left, p1)))"
| "comparison 0 p = None"
| "comparison (Suc n) p =
     andThen (term n p) (\<lambda>left p1. comparison_loop n left p1)"
| "comparison_loop 0 left p = None"
| "comparison_loop (Suc n) left p =
     andThen (Some (orElse (match Greater) (orElse (match GreaterEqual)
                (orElse (match Less) (match LessEqual))) p)) (\<lambda>b p1.
       if b then
         andThen (Some (previous p1)) (\<lambda>op p2.
         andThen (term n p2) (\<lambda>right p3.
         comparison_loop n (BinaryExpr left op right) p3))
       else Some (Inr (left, p1)))"
| "term 0 p = None"
| "term (Suc n) p =
     andThen (factor n p) (\<lambda>left p1. term_loop n left p1)"
| "term_loop 0 left p = None"
| "term_loop (Suc n) left p =
     andThen (Some (orElse (match PlusT) (match Minus) p)) (\<lambda>b p1.
       if b then
         andThen (Some (previous p1)) (\<lambda>op p2.
         andThen (factor n p2) (\<lambda>right p3.
         term_loop n (BinaryExpr left op right) p3))
       else Some (Inr (left, p1)))"
| "factor 0 p = None"
| "factor (Suc n) p =
     andThen (unary n p) (\<lambda>left p1. factor_loop n left p1)"
| "factor_loop 0 left p = None"
| "factor_loop (Suc n) left p =
     andThen (Some (orElse (match Star) (match Slash) p)) (\<lambda>b p1.
       if b then
         andThen (Some (previous p1)) (\<lambda>op p2.
         andThen (unary n p2) (\<lambda>right p3.
         factor_loop n (BinaryExpr left op right) p3))
       else Some (Inr (left, p1)))"
| "unary 0 p = None"
| "unary (Suc n) p =
     andThen (Some (orElse (match PlusT) (match Minus) p)) (\<lambda>b p1.
       if b then
         andThen (Some (previous p1)) (\<lambda>op p2.
         andThen (unary n p2) (\<lambda>e p3.
         Some (Inr (UnaryExpr op e, p3))))
       else
         andThen (Some (match LeftParen p1)) (\<lambda>b p2.
           if b then
             andThen (expr n p2) (\<lambda>exp p3.
             andThen (Some (consume RightParen (''Expected '' @ quote @ '')'' @ quote) p3))
               (\<lambda>_ p4.
             Some (Inr (exp, p4))))
           else primary n p2))"
| "primary 0 p = None"
| "primary (Suc n) p =
     andThen (Some (match FalseT p)) (\<lambda>b p1.
       if b then Some (Inr (LiteralExpr (Boolean False), p1)) else
     andThen (Some (match TrueT p1)) (\<lambda>b p2.
       if b then Some (Inr (LiteralExpr (Boolean True), p2)) else
     andThen (Some (orElse (match Number) (match StringT) p2)) (\<lambda>b p3.
       if b then
         andThen (Some (previous p3)) (\<lambda>t p4.
         Some (Inr (LiteralExpr (literal t), p4)))
       else
     andThen (Some (match LeftParen p3)) (\<lambda>b p4.
       if b then
         andThen (expr n p4) (\<lambda>exp p5.
         andThen (Some (match RightParen p5)) (\<lambda>_ p6.
         Some (Inr (exp, p6))))
       else
         andThen (Some (peek p4)) (\<lambda>t p5.
         Some (Inl (SyntaxError (''Parsing Error - Unexpected token: '' @ lexeme t))))))))"
  by pat_completeness auto
termination
  by (relation "measure (case_sum
        (case_sum (case_sum fst fst) (case_sum fst (case_sum fst fst)))
        (case_sum (case_sum fst (case_sum fst fst)) (case_sum fst (case_sum fst fst))))")
     simp_all

function (sequential) statement :: "nat \<Rightarrow> 'v Parser \<Rightarrow> ('v, 'v Stmt) run"
  and blockStmt :: "nat \<Rightarrow> 'v Parser \<Rightarrow> ('v, 'v Stmt) run"
  and blockStmt_loop :: "nat \<Rightarrow> 'v Stmt list \<Rightarrow> 'v Parser \<Rightarrow> ('v, 'v Stmt list) run"
  and printStatement :: "nat \<Rightarrow> 'v Parser \<Rightarrow> ('v, 'v Stmt) run"
  and IfStatement :: "nat \<Rightarrow> 'v Parser \<Rightarrow> ('v, 'v Stmt) run"
  and expressionStatement :: "nat \<Rightarrow> 'v Parser \<Rightarrow> ('v, 'v Stmt) run"
where
  "statement 0 p = None"
| "statement (Suc n) p =
     andThen (Some (match Print p)) (\<lambda>b p1.
       if b then printStatement n p1 else
     andThen (Some (match IfT p1)) (\<lambda>b p2.
       if b then IfStatement n p2 else
     andThen (Some (match LeftBrace p2)) (\<lambda>b p3.
       if b then blockStmt n p3 else
     expressionStatement n p3)))"
| "blockStmt 0 p = None"
| "blockStmt (Suc n) p =
     andThen (blockStmt_loop n [] p) (\<lambda>statements p1.
     andThen (Some (consume RightBrace (''Expect '' @ quote @ ''}'' @ quote @ '' after block.'') p1))
       (\<lambda>_ p2.
     Some (Inr (BlockStmt statements, p2))))"
| "blockStmt_loop 0 statements p = None"
| "blockStmt_loop (Suc n) statements p =
     andThen (Some (check RightBrace p)) (\<lambda>b p1.
       if \<not> b then
         andThen (statement n p1) (\<lambda>s p2.
         blockStmt_loop n (statements @ [s]) p2)
       else Some (Inr (statements, p1)))"
| "printStatement 0 p = None"
| "printStatement (Suc n) p =
     andThen (expr n p) (\<lambda>value p1.
     andThen (Some (consume Semicolon
        (''Expect '' @ quote @ '';'' @ quote @ '' after value.'' @ quote) p1)) (\<lambda>_ p2.
     Some (Inr (PrintStmt value, p2))))"
| "IfStatement 0 p = None"
| "IfStatement (Suc n) p =
     andThen (expr n p) (\<lambda>cond p1.
     andThen (statement n p1) (\<lambda>thenBranch p2.
     andThen (Some (match Else p2)) (\<lambda>b p3.
       if b then
         andThen (statement n p3) (\<lambda>otherwise p4.
         Some (Inr (IfStmt cond thenBranch (Some otherwise), p4)))
       else Some (Inr (IfStmt cond thenBranch None, p3)))))"
| "expressionStatement 0 p = None"
| "expressionStatement (Suc n) p =
     andThen (expr n p) (\<lambda>expression p1.
     andThen (Some (consume Semicolon
        (''Expect '' @ quote @ '';'' @ quote @ '' afer expression'') p1)) (\<lambda>_ p2.
     Some (Inr (ExpressionStmt expression, p2))))"
  by pat_completeness auto
termination
  by (relation "measure (case_sum
        (case_sum fst (case_sum fst fst)) (case_sum fst (case_sum fst fst)))")
     simp_all

fun parse_loop :: "nat \<Rightarrow> 'v Stmt list \<Rightarrow> 'v Parser \<Rightarrow> ('v, 'v Stmt list) run" where
  "parse_loop 0 statements p = None"
| "parse_loop (Suc n) statements p =
     andThen (Some (atEnd p)) (\<lambda>b p1.
       if \<not> b then
         andThen (statement n p1) (\<lambda>s p2.
         parse_loop n (statements @ [s]) p2)
       else Some (Inr (statements, p1)))"

text \<open>
  Modelled from the spec: parser.h, with the constructor of \<open>Parser\<close>, is missing; a
  fresh parser holds the token sequence and a fresh cursor at the first token.
\<close>

definition new_Parser :: "'v Token list \<Rightarrow> 'v Parser" where
  "new_Parser toks = \<lparr>tokens = toks, current = 0\<rparr>"

text \<open>\<open>Parser::parse\<close> with a bound on the call depth; it returns the statements only.\<close>

definition parse_fuel :: "nat \<Rightarrow> 'v Token list \<Rightarrow> (error + 'v Stmt list) option" where
  "parse_fuel n toks =
     (case parse_loop n [] (new_Parser toks) of
        None \<Rightarrow> None
      | Some (Inl e) \<Rightarrow> Some (Inl e)
      | Some (Inr (statements, p)) \<Rightarrow> Some (Inr statements))"

text \<open>
  A call depth that no run on the token sequence exceeds (\<open>parse_fuel_independent\<close> below):
  with it \<open>parse\<close> is the parser itself, and \<open>parse_total\<close> shows that it always returns.
\<close>

definition fuel_bound :: "'v Token list \<Rightarrow> nat" where
  "fuel_bound toks = 16 * length toks + 16"

definition parse :: "'v Token list \<Rightarrow> (error + 'v Stmt list) option" where
  "parse toks = parse_fuel (fuel_bound toks) toks"

section \<open>Notions used in the properties\<close>

text \<open>The cursor is on a token of the given type that is not the end marker.\<close>

definition looking_at :: "TokenType \<Rightarrow> 'v Parser \<Rightarrow> bool" where
  "looking_at ty p \<longleftrightarrow>
     current p < length (tokens p) \<and> type (tokens p ! current p) \<noteq> Eof \<and>
     type (tokens p ! current p) = ty"

definition at_end :: "'v Parser \<Rightarrow> bool" where
  "at_end p \<longleftrightarrow> length (tokens p) \<le> current p \<or> type (tokens p ! current p) = Eof"

definition step :: "'v Parser \<Rightarrow> 'v Parser" where
  "step p = p\<lparr>current := current p + 1\<rparr>"

definition remaining :: "'v Parser \<Rightarrow> nat" where
  "remaining p = length (tokens p) - current p"

text \<open>
  The number of tokens before the first end marker (all of them when there is none), and
  the states whose cursor has not passed it.
\<close>

definition limit :: "'v Token list \<Rightarrow> nat" where
  "limit toks = length (takeWhile (\<lambda>t. type t \<noteq> Eof) toks)"

definition in_range :: "'v Parser \<Rightarrow> bool" where
  "in_range p \<longleftrightarrow> current p \<le> limit (tokens p)"

text \<open>
  \<open>frame p q\<close>: from \<open>p\<close> to \<open>q\<close> the tokens are the same, the cursor has not moved
  back, and it has not passed the first end marker nor the end of the sequence unless it
  had before.
\<close>

definition frame :: "'v Parser \<Rightarrow> 'v Parser \<Rightarrow> bool" where
  "frame p q \<longleftrightarrow>
     tokens q = tokens p \<and> current p \<le> current q \<and> (in_range p \<longrightarrow> in_range q)"

text \<open>
  \<open>unclosed opn cls d ts\<close> counts the opening brackets \<open>opn\<close> still without their closing
  bracket \<open>cls\<close> after the tokens \<open>ts\<close>, starting with \<open>d\<close> open ones; a closing bracket
  that matches no opening one is skipped.
\<close>

fun unclosed :: "TokenType \<Rightarrow> TokenType \<Rightarrow> nat \<Rightarrow> TokenType list \<Rightarrow> nat" where
  "unclosed opn cls d [] = d"
| "unclosed opn cls d (t # ts) =
     unclosed opn cls (if t = opn then d + 1 else if t = cls then d - 1 else d) ts"

definition brackets :: "TokenType \<Rightarrow> TokenType \<Rightarrow> bool" where
  "brackets opn cls \<longleftrightarrow>
     opn = LeftBrace \<and> cls = RightBrace \<or> opn = LeftParen \<and> cls = RightParen"

text \<open>
  The opening brackets still unclosed among the tokens that the cursor has passed.
\<close>

definition open_count :: "TokenType \<Rightarrow> TokenType \<Rightarrow> 'v Parser \<Rightarrow> nat" where
  "open_count opn cls p = unclosed opn cls 0 (map type (take (current p) (tokens p)))"

text \<open>
  The states with an end marker in the sequence that the cursor has not passed.
\<close>

definition guarded :: "'v Parser \<Rightarrow> bool" where
  "guarded p \<longleftrightarrow> in_range p \<and> limit (tokens p) < length (tokens p)"

text \<open>The tokens of a sequence before its first end marker.\<close>

definition before_Eof :: "'v Token list \<Rightarrow> TokenType list" where
  "before_Eof toks = map type (takeWhile (\<lambda>t. type t \<noteq> Eof) toks)"

text \<open>
  The number of tokens before the first \<open>Identifier\<close> or \<open>Let\<close> token (all of them
  when there is none), and the states with such a token in the sequence that the cursor
  has not passed.
\<close>

definition var_limit :: "'v Token list \<Rightarrow> nat" where
  "var_limit toks = length (takeWhile (\<lambda>t. type t \<notin> {Identifier, LetT}) toks)"

definition var_ahead :: "'v Parser \<Rightarrow> bool" where
  "var_ahead p \<longleftrightarrow>
     current p \<le> var_limit (tokens p) \<and> var_limit (tokens p) < length (tokens p)"

text \<open>A tree holds a \<open>VariableExpr\<close> or a \<open>VarStmt\<close> node.\<close>

fun has_VariableExpr :: "'v Expr \<Rightarrow> bool" where
  "has_VariableExpr (LiteralExpr v) = False"
| "has_VariableExpr (UnaryExpr op e) = has_VariableExpr e"
| "has_VariableExpr (BinaryExpr l op r) = (has_VariableExpr l \<or> has_VariableExpr r)"
| "has_VariableExpr (VariableExpr name) = True"

fun has_Var :: "'v Stmt \<Rightarrow> bool" where
  "has_Var (VarStmt name init) = True"
| "has_Var (ExpressionStmt e) = has_VariableExpr e"
| "has_Var (PrintStmt e) = has_VariableExpr e"
| "has_Var (IfStmt c t e) =
     (has_VariableExpr c \<or> has_Var t \<or> (case e of None \<Rightarrow> False | Some s \<Rightarrow> has_Var s))"
| "has_Var (BlockStmt ss) = list_ex has_Var ss"

text \<open>
  A call of one of the cursor primitives, and a sequence of such calls run one after the
  other from a state; the run stops at the first call that raises.
\<close>

datatype primitive =
    AtEnd | Peek | Advance | Previous
  | Check TokenType | Match TokenType | Consume TokenType string

fun call :: "primitive \<Rightarrow> 'v Parser \<Rightarrow> error + 'v Parser" where
  "call AtEnd p = map_sum id snd (atEnd p)"
| "call Peek p = map_sum id snd (peek p)"
| "call Advance p = map_sum id snd (advance p)"
| "call Previous p = map_sum id snd (previous p)"
| "call (Check ty) p = map_sum id snd (check ty p)"
| "call (Match ty) p = map_sum id snd (match ty p)"
| "call (Consume ty err) p = map_sum id snd (consume ty err p)"

fun calls :: "primitive list \<Rightarrow> 'v Parser \<Rightarrow> error + 'v Parser" where
  "calls [] p = Inr p"
| "calls (c # cs) p = (case call c p of Inl e \<Rightarrow> Inl e | Inr q \<Rightarrow> calls cs q)"

text \<open>
  The precedence level of a binary operator, from the loosest (\<open>equality\<close>, 1) to the
  tightest (\<open>factor\<close>, 4); 0 for a token that is no binary operator.
\<close>

definition binary_level :: "TokenType \<Rightarrow> nat" where
  "binary_level ty =
     (if ty \<in> {BangEqual, EqualEqual} then 1
      else if ty \<in> {Greater, GreaterEqual, Less, LessEqual} then 2
      else if ty \<in> {PlusT, Minus} then 3
      else if ty \<in> {Star, Slash} then 4
      else 0)"

section \<open>The primitives in closed form\<close>

lemma atEnd_eq: "atEnd p = Inr (at_end p, p)"
  by (simp add: atEnd_def peek_def at_end_def)

lemma check_eq: "check ty p = Inr (looking_at ty p, p)"
  by (auto simp add: check_def atEnd_eq peek_def looking_at_def at_end_def)

lemma match_eq:
  "match ty p = Inr (if looking_at ty p then (True, step p) else (False, p))"
  by (auto simp add: match_def check_eq advance_def atEnd_eq previous_def looking_at_def
      step_def at_end_def)

lemma consume_eq:
  "consume ty err p = (if looking_at ty p then Inr ((), step p) else Inl (SyntaxError err))"
  by (simp add: consume_def match_eq)

lemma match_Inr_iff:
  "match ty p = Inr (b, q) \<longleftrightarrow>
     (b \<and> looking_at ty p \<and> q = step p) \<or> (\<not> b \<and> \<not> looking_at ty p \<and> q = p)"
  by (auto simp add: match_eq)

lemma match_not_Inl [simp]: "match ty p \<noteq> Inl e"
  by (simp add: match_eq)

lemma orElse_Inr_iff:
  "orElse f g p = Inr (b, q) \<longleftrightarrow>
     f p = Inr (True, q) \<and> b \<or> (\<exists>r. f p = Inr (False, r) \<and> g r = Inr (b, q))"
  by (auto simp add: orElse_def split: sum.splits)

lemma orElse_Inl_iff:
  "orElse f g p = Inl e \<longleftrightarrow>
     f p = Inl e \<or> (\<exists>r. f p = Inr (False, r) \<and> g r = Inl e)"
  by (auto simp add: orElse_def split: sum.splits)

lemma previous_Inr: "previous p = Inr (t, q) \<Longrightarrow> q = p"
  by (auto simp add: previous_def split: if_splits)

lemma previous_step:
  "looking_at ty p \<Longrightarrow> previous (step p) = Inr (tokens p ! current p, step p)"
  by (simp add: previous_def step_def looking_at_def)

lemma peek_Inr: "peek p = Inr (t, q) \<Longrightarrow> q = p"
  by (auto simp add: peek_def split: if_splits)

section \<open>Sequencing\<close>

lemma andThen_simps [simp]:
  "andThen None f = None"
  "andThen (Some (Inl e)) f = Some (Inl e)"
  "andThen (Some (Inr (a, p))) f = f a p"
  by (simp_all add: andThen_def)

lemma andThen_Inr_iff:
  "andThen m f = Some (Inr r) \<longleftrightarrow> (\<exists>a q. m = Some (Inr (a, q)) \<and> f a q = Some (Inr r))"
  by (auto simp add: andThen_def split: option.splits sum.splits)

lemma andThen_Inl_iff:
  "andThen m f = Some (Inl e) \<longleftrightarrow>
     m = Some (Inl e) \<or> (\<exists>a q. m = Some (Inr (a, q)) \<and> f a q = Some (Inl e))"
  by (auto simp add: andThen_def split: option.splits sum.splits)

lemma andThen_None_iff:
  "andThen m f = None \<longleftrightarrow> m = None \<or> (\<exists>a q. m = Some (Inr (a, q)) \<and> f a q = None)"
  by (auto simp add: andThen_def split: option.splits sum.splits)


section \<open>The procedures with the primitives evaluated\<close>

lemma match_if:
  "match ty p = (if looking_at ty p then Inr (True, step p) else Inr (False, p))"
  by (simp add: match_eq)

lemma andThen_Some_if:
  "andThen (Some (if c then x else y)) f =
     (if c then andThen (Some x) f else andThen (Some y) f)"
  by simp

lemma orElse_match:
  "orElse (match ty) g p = (if looking_at ty p then Inr (True, step p) else g p)"
  by (simp add: orElse_def match_eq)

lemma equality_loop_Suc:
  "equality_loop (Suc n) left p =
     (if looking_at BangEqual p \<or> looking_at EqualEqual p then
        andThen (comparison n (step p)) (\<lambda>right q.
          equality_loop n (BinaryExpr left (tokens p ! current p) right) q)
      else Some (Inr (left, p)))"
  by (simp add: orElse_match match_if previous_step andThen_Some_if cong: if_cong)

lemma comparison_loop_Suc:
  "comparison_loop (Suc n) left p =
     (if looking_at Greater p \<or> looking_at GreaterEqual p \<or> looking_at Less p \<or>
         looking_at LessEqual p then
        andThen (term n (step p)) (\<lambda>right q.
          comparison_loop n (BinaryExpr left (tokens p ! current p) right) q)
      else Some (Inr (left, p)))"
  by (simp add: orElse_match match_if previous_step andThen_Some_if cong: if_cong)

lemma term_loop_Suc:
  "term_loop (Suc n) left p =
     (if looking_at PlusT p \<or> looking_at Minus p then
        andThen (factor n (step p)) (\<lambda>right q.
          term_loop n (BinaryExpr left (tokens p ! current p) right) q)
      else Some (Inr (left, p)))"
  by (simp add: orElse_match match_if previous_step andThen_Some_if cong: if_cong)

lemma factor_loop_Suc:
  "factor_loop (Suc n) left p =
     (if looking_at Star p \<or> looking_at Slash p then
        andThen (unary n (step p)) (\<lambda>right q.
          factor_loop n (BinaryExpr left (tokens p ! current p) right) q)
      else Some (Inr (left, p)))"
  by (simp add: orElse_match match_if previous_step andThen_Some_if cong: if_cong)

lemma unary_Suc:
  "unary (Suc n) p =
     (if looking_at PlusT p \<or> looking_at Minus p then
        andThen (unary n (step p)) (\<lambda>e q.
          Some (Inr (UnaryExpr (tokens p ! current p) e, q)))
      else if looking_at LeftParen p then
        andThen (expr n (step p)) (\<lambda>exp q.
          if looking_at RightParen q then Some (Inr (exp, step q))
          else Some (Inl (SyntaxError (''Expected '' @ quote @ '')'' @ quote))))
      else primary n p)"
  by (simp add: orElse_match match_if previous_step consume_eq andThen_Some_if cong: if_cong)

lemma primary_Suc:
  "primary (Suc n) p =
     (if looking_at FalseT p then Some (Inr (LiteralExpr (Boolean False), step p))
      else if looking_at TrueT p then Some (Inr (LiteralExpr (Boolean True), step p))
      else if looking_at Number p \<or> looking_at StringT p then
        Some (Inr (LiteralExpr (literal (tokens p ! current p)), step p))
      else if looking_at LeftParen p then
        andThen (expr n (step p)) (\<lambda>exp q.
          if looking_at RightParen q then Some (Inr (exp, step q))
          else Some (Inr (exp, q)))
      else if current p < length (tokens p) then
        Some (Inl (SyntaxError
          (''Parsing Error - Unexpected token: '' @ lexeme (tokens p ! current p))))
      else Some (Inl OutOfBounds))"
  by (simp add: orElse_match match_if previous_step peek_def andThen_Some_if cong: if_cong)

lemma statement_Suc:
  "statement (Suc n) p =
     (if looking_at Print p then printStatement n (step p)
      else if looking_at IfT p then IfStatement n (step p)
      else if looking_at LeftBrace p then blockStmt n (step p)
      else expressionStatement n p)"
  by (simp add: match_eq)

lemma blockStmt_Suc:
  "blockStmt (Suc n) p =
     andThen (blockStmt_loop n [] p) (\<lambda>statements q.
       if looking_at RightBrace q then Some (Inr (BlockStmt statements, step q))
       else Some (Inl (SyntaxError
         (''Expect '' @ quote @ ''}'' @ quote @ '' after block.''))))"
  by (simp add: consume_eq andThen_Some_if cong: if_cong)

lemma blockStmt_loop_Suc:
  "blockStmt_loop (Suc n) statements p =
     (if looking_at RightBrace p then Some (Inr (statements, p))
      else andThen (statement n p) (\<lambda>s q. blockStmt_loop n (statements @ [s]) q))"
  by (simp add: check_eq)

lemma printStatement_Suc:
  "printStatement (Suc n) p =
     andThen (expr n p) (\<lambda>value q.
       if looking_at Semicolon q then Some (Inr (PrintStmt value, step q))
       else Some (Inl (SyntaxError
         (''Expect '' @ quote @ '';'' @ quote @ '' after value.'' @ quote))))"
  by (simp add: consume_eq andThen_Some_if cong: if_cong)

lemma IfStatement_Suc:
  "IfStatement (Suc n) p =
     andThen (expr n p) (\<lambda>cond q.
     andThen (statement n q) (\<lambda>thenBranch r.
       if looking_at Else r then
         andThen (statement n (step r)) (\<lambda>otherwise r'.
           Some (Inr (IfStmt cond thenBranch (Some otherwise), r')))
       else Some (Inr (IfStmt cond thenBranch None, r))))"
  by (simp add: match_if andThen_Some_if cong: if_cong)

lemma expressionStatement_Suc:
  "expressionStatement (Suc n) p =
     andThen (expr n p) (\<lambda>expression q.
       if looking_at Semicolon q then Some (Inr (ExpressionStmt expression, step q))
       else Some (Inl (SyntaxError
         (''Expect '' @ quote @ '';'' @ quote @ '' afer expression''))))"
  by (simp add: consume_eq andThen_Some_if cong: if_cong)

lemma parse_loop_Suc:
  "parse_loop (Suc n) statements p =
     (if at_end p then Some (Inr (statements, p))
      else andThen (statement n p) (\<lambda>s q. parse_loop n (statements @ [s]) q))"
  by (simp add: atEnd_eq)


declare equality_loop.simps(2) [simp del] comparison_loop.simps(2) [simp del]
  term_loop.simps(2) [simp del] factor_loop.simps(2) [simp del] unary.simps(2) [simp del]
  primary.simps(2) [simp del] statement.simps(2) [simp del] blockStmt.simps(2) [simp del]
  blockStmt_loop.simps(2) [simp del] printStatement.simps(2) [simp del]
  IfStatement.simps(2) [simp del] expressionStatement.simps(2) [simp del]
  parse_loop.simps(2) [simp del]

lemmas expr_Suc = equality_loop_Suc comparison_loop_Suc term_loop_Suc factor_loop_Suc
  unary_Suc primary_Suc

lemmas stmt_Suc = statement_Suc blockStmt_Suc blockStmt_loop_Suc printStatement_Suc
  IfStatement_Suc expressionStatement_Suc

lemmas expr_induct =
  expr_equality_equality_loop_comparison_comparison_loop_term_term_loop_factor_factor_loop_unary_primary.induct

lemmas stmt_induct =
  statement_blockStmt_blockStmt_loop_printStatement_IfStatement_expressionStatement.induct

section \<open>The cursor only moves forward\<close>

lemma current_step [simp]: "current (step p) = Suc (current p)"
  by (simp add: step_def)

lemma tokens_step [simp]: "tokens (step p) = tokens p"
  by (simp add: step_def)

lemma limit_le_length: "limit toks \<le> length toks"
  by (simp add: limit_def length_takeWhile_le)

lemma limit_is_Eof: "limit toks < length toks \<Longrightarrow> type (toks ! limit toks) = Eof"
  unfolding limit_def using nth_length_takeWhile [of "\<lambda>t. type t \<noteq> Eof" toks] by simp

lemma before_limit: "i < limit toks \<Longrightarrow> type (toks ! i) \<noteq> Eof"
  unfolding limit_def using nth_mem [of i "takeWhile (\<lambda>t. type t \<noteq> Eof) toks"]
  by (auto simp add: takeWhile_nth dest: set_takeWhileD)

lemma in_range_step: "looking_at ty p \<Longrightarrow> in_range p \<Longrightarrow> in_range (step p)"
  unfolding in_range_def looking_at_def
  using limit_is_Eof [of "tokens p"] limit_le_length [of "tokens p"]
  by (cases "current p = limit (tokens p)") auto

lemma frame_refl [simp]: "frame p p"
  by (simp add: frame_def)

lemma frame_trans: "frame p q \<Longrightarrow> frame q r \<Longrightarrow> frame p r"
  by (auto simp add: frame_def)

lemma frame_step: "looking_at ty p \<Longrightarrow> frame p (step p)"
  by (simp add: frame_def in_range_step)

section \<open>Induction on the call depth\<close>

lemma expr_fuel_induct [case_names expr equality equality_loop comparison comparison_loop
    term_proc term_loop factor factor_loop unary primary]:
  assumes "\<And>n p. (\<And>p. P2 n p) \<Longrightarrow> P1 (Suc n) p"
    and "\<And>n p. (\<And>p. P4 n p) \<Longrightarrow> (\<And>l p. P3 n l p) \<Longrightarrow> P2 (Suc n) p"
    and "\<And>n l p. (\<And>p. P4 n p) \<Longrightarrow> (\<And>l p. P3 n l p) \<Longrightarrow> P3 (Suc n) l p"
    and "\<And>n p. (\<And>p. P6 n p) \<Longrightarrow> (\<And>l p. P5 n l p) \<Longrightarrow> P4 (Suc n) p"
    and "\<And>n l p. (\<And>p. P6 n p) \<Longrightarrow> (\<And>l p. P5 n l p) \<Longrightarrow> P5 (Suc n) l p"
    and "\<And>n p. (\<And>p. P8 n p) \<Longrightarrow> (\<And>l p. P7 n l p) \<Longrightarrow> P6 (Suc n) p"
    and "\<And>n l p. (\<And>p. P8 n p) \<Longrightarrow> (\<And>l p. P7 n l p) \<Longrightarrow> P7 (Suc n) l p"
    and "\<And>n p. (\<And>p. P10 n p) \<Longrightarrow> (\<And>l p. P9 n l p) \<Longrightarrow> P8 (Suc n) p"
    and "\<And>n l p. (\<And>p. P10 n p) \<Longrightarrow> (\<And>l p. P9 n l p) \<Longrightarrow> P9 (Suc n) l p"
    and "\<And>n p. (\<And>p. P10 n p) \<Longrightarrow> (\<And>p. P1 n p) \<Longrightarrow> (\<And>p. P11 n p) \<Longrightarrow> P10 (Suc n) p"
    and "\<And>n p. (\<And>p. P1 n p) \<Longrightarrow> P11 (Suc n) p"
    and "\<And>p. P1 0 p" and "\<And>p. P2 0 p" and "\<And>l p. P3 0 l p" and "\<And>p. P4 0 p"
    and "\<And>l p. P5 0 l p" and "\<And>p. P6 0 p" and "\<And>l p. P7 0 l p" and "\<And>p. P8 0 p"
    and "\<And>l p. P9 0 l p" and "\<And>p. P10 0 p" and "\<And>p. P11 0 p"
  shows "P1 (n1::nat) (p1::'v Parser)" and "P2 (n2::nat) (p2::'v Parser)"
    and "P3 (n3::nat) (l3::'v Expr) (p3::'v Parser)" and "P4 (n4::nat) (p4::'v Parser)"
    and "P5 (n5::nat) (l5::'v Expr) (p5::'v Parser)" and "P6 (n6::nat) (p6::'v Parser)"
    and "P7 (n7::nat) (l7::'v Expr) (p7::'v Parser)" and "P8 (n8::nat) (p8::'v Parser)"
    and "P9 (n9::nat) (l9::'v Expr) (p9::'v Parser)" and "P10 (n10::nat) (p10::'v Parser)"
    and "P11 (n11::nat) (p11::'v Parser)"
proof -
  have all: "(\<forall>p. P1 n p) \<and> (\<forall>p. P2 n p) \<and> (\<forall>l p. P3 n l p) \<and> (\<forall>p. P4 n p) \<and>
      (\<forall>l p. P5 n l p) \<and> (\<forall>p. P6 n p) \<and> (\<forall>l p. P7 n l p) \<and> (\<forall>p. P8 n p) \<and>
      (\<forall>l p. P9 n l p) \<and> (\<forall>p. P10 n p) \<and> (\<forall>p. P11 n p)" for n
  proof (induction n)
    case 0
    show ?case by (intro conjI allI; rule assms)
  next
    case (Suc n)
    show ?case by (intro conjI allI; rule assms; simp add: Suc.IH)
  qed
  show "P1 n1 p1" and "P2 n2 p2" and "P3 n3 l3 p3" and "P4 n4 p4" and "P5 n5 l5 p5"
    and "P6 n6 p6" and "P7 n7 l7 p7" and "P8 n8 p8" and "P9 n9 l9 p9" and "P10 n10 p10"
    and "P11 n11 p11"
    using all by blast+
qed

lemma stmt_fuel_induct [case_names statement blockStmt blockStmt_loop printStatement
    IfStatement expressionStatement]:
  assumes "\<And>n p. (\<And>p. P4 n p) \<Longrightarrow> (\<And>p. P5 n p) \<Longrightarrow> (\<And>p. P2 n p) \<Longrightarrow> (\<And>p. P6 n p) \<Longrightarrow>
      P1 (Suc n) p"
    and "\<And>n p. (\<And>ss p. P3 n ss p) \<Longrightarrow> P2 (Suc n) p"
    and "\<And>n ss p. (\<And>p. P1 n p) \<Longrightarrow> (\<And>ss p. P3 n ss p) \<Longrightarrow> P3 (Suc n) ss p"
    and "\<And>n p. P4 (Suc n) p"
    and "\<And>n p. (\<And>p. P1 n p) \<Longrightarrow> P5 (Suc n) p"
    and "\<And>n p. P6 (Suc n) p"
    and "\<And>p. P1 0 p" and "\<And>p. P2 0 p" and "\<And>ss p. P3 0 ss p" and "\<And>p. P4 0 p"
    and "\<And>p. P5 0 p" and "\<And>p. P6 0 p"
  shows "P1 (n1::nat) (p1::'v Parser)" and "P2 (n2::nat) (p2::'v Parser)"
    and "P3 (n3::nat) (ss3::'v Stmt list) (p3::'v Parser)" and "P4 (n4::nat) (p4::'v Parser)"
    and "P5 (n5::nat) (p5::'v Parser)" and "P6 (n6::nat) (p6::'v Parser)"
proof -
  have all: "(\<forall>p. P1 n p) \<and> (\<forall>p. P2 n p) \<and> (\<forall>ss p. P3 n ss p) \<and> (\<forall>p. P4 n p) \<and>
      (\<forall>p. P5 n p) \<and> (\<forall>p. P6 n p)" for n
  proof (induction n)
    case 0
    show ?case by (intro conjI allI; rule assms)
  next
    case (Suc n)
    show ?case by (intro conjI allI; rule assms; simp add: Suc.IH)
  qed
  show "P1 n1 p1" and "P2 n2 p2" and "P3 n3 ss3 p3" and "P4 n4 p4" and "P5 n5 p5"
    and "P6 n6 p6"
    using all by blast+
qed

lemma expr_frame:
  fixes p :: "'v Parser"
  shows "expr n p = Some (Inr (a, q)) \<Longrightarrow> frame p q"
    and "equality n p = Some (Inr (a, q)) \<Longrightarrow> frame p q"
    and "equality_loop n l p = Some (Inr (a, q)) \<Longrightarrow> frame p q"
    and "comparison n p = Some (Inr (a, q)) \<Longrightarrow> frame p q"
    and "comparison_loop n l p = Some (Inr (a, q)) \<Longrightarrow> frame p q"
    and "term n p = Some (Inr (a, q)) \<Longrightarrow> frame p q"
    and "term_loop n l p = Some (Inr (a, q)) \<Longrightarrow> frame p q"
    and "factor n p = Some (Inr (a, q)) \<Longrightarrow> frame p q"
    and "factor_loop n l p = Some (Inr (a, q)) \<Longrightarrow> frame p q"
    and "unary n p = Some (Inr (a, q)) \<Longrightarrow> frame p q"
    and "primary n p = Some (Inr (a, q)) \<Longrightarrow> frame p q"
proof (induction n p and n p and n l p and n p and n l p and n p and n l p and n p and n l p
    and n p and n p arbitrary: a q and a q and a q and a q and a q and a q and a q and a q
    and a q and a q and a q rule: expr_fuel_induct)
  case (expr n p)
  from expr.prems show ?case by (auto dest!: expr.IH)
next
  case (equality n p)
  from equality.prems show ?case
    by (auto simp add: andThen_Inr_iff dest!: equality.IH elim: frame_trans)
next
  case (equality_loop n l p)
  from equality_loop.prems show ?case
    by (auto simp add: expr_Suc andThen_Inr_iff split: if_splits
        dest!: equality_loop.IH frame_step elim: frame_trans)
next
  case (comparison n p)
  from comparison.prems show ?case
    by (auto simp add: andThen_Inr_iff dest!: comparison.IH elim: frame_trans)
next
  case (comparison_loop n l p)
  from comparison_loop.prems show ?case
    by (auto simp add: expr_Suc andThen_Inr_iff split: if_splits
        dest!: comparison_loop.IH frame_step elim: frame_trans)
next
  case (term_proc n p)
  from term_proc.prems show ?case
    by (auto simp add: andThen_Inr_iff dest!: term_proc.IH elim: frame_trans)
next
  case (term_loop n l p)
  from term_loop.prems show ?case
    by (auto simp add: expr_Suc andThen_Inr_iff split: if_splits
        dest!: term_loop.IH frame_step elim: frame_trans)
next
  case (factor n p)
  from factor.prems show ?case
    by (auto simp add: andThen_Inr_iff dest!: factor.IH elim: frame_trans)
next
  case (factor_loop n l p)
  from factor_loop.prems show ?case
    by (auto simp add: expr_Suc andThen_Inr_iff split: if_splits
        dest!: factor_loop.IH frame_step elim: frame_trans)
next
  case (unary n p)
  from unary.prems show ?case
    by (auto simp add: expr_Suc andThen_Inr_iff split: if_splits
        dest!: unary.IH frame_step elim: frame_trans)
next
  case (primary n p)
  from primary.prems show ?case
    by (auto simp add: expr_Suc andThen_Inr_iff split: if_splits
        dest!: primary.IH frame_step elim: frame_trans)
qed simp_all

lemma stmt_frame:
  fixes p :: "'v Parser"
  shows "statement n p = Some (Inr (s, q)) \<Longrightarrow> frame p q \<and> current p < current q"
    and "blockStmt n p = Some (Inr (s, q)) \<Longrightarrow> frame p q \<and> current p < current q"
    and "blockStmt_loop n ss p = Some (Inr (ss', q)) \<Longrightarrow> frame p q"
    and "printStatement n p = Some (Inr (s, q)) \<Longrightarrow> frame p q \<and> current p < current q"
    and "IfStatement n p = Some (Inr (s, q)) \<Longrightarrow> frame p q \<and> current p < current q"
    and "expressionStatement n p = Some (Inr (s, q)) \<Longrightarrow> frame p q \<and> current p < current q"
proof (induction n p and n p and n ss p and n p and n p and n p
    arbitrary: s q and s q and ss' q and s q and s q and s q rule: stmt_fuel_induct)
  case (statement n p)
  from statement.prems show ?case
    by (auto simp add: stmt_Suc frame_def split: if_splits
        dest!: statement.IH frame_step)
next
  case (blockStmt n p)
  from blockStmt.prems show ?case
    by (auto simp add: stmt_Suc andThen_Inr_iff frame_def split: if_splits
        dest!: blockStmt.IH frame_step)
next
  case (blockStmt_loop n ss p)
  from blockStmt_loop.prems show ?case
    by (auto simp add: stmt_Suc andThen_Inr_iff frame_def split: if_splits
        dest!: blockStmt_loop.IH)
next
  case (printStatement n p)
  from printStatement.prems show ?case
    by (auto simp add: stmt_Suc andThen_Inr_iff frame_def split: if_splits
        dest!: expr_frame(1) frame_step)
next
  case (IfStatement n p)
  from IfStatement.prems show ?case
    by (auto simp add: stmt_Suc andThen_Inr_iff frame_def split: if_splits
        dest!: expr_frame(1) IfStatement.IH frame_step)
next
  case (expressionStatement n p)
  from expressionStatement.prems show ?case
    by (auto simp add: stmt_Suc andThen_Inr_iff frame_def split: if_splits
        dest!: expr_frame(1) frame_step)
qed simp_all

lemma parse_loop_frame:
  "parse_loop n ss p = Some (Inr (ss', q)) \<Longrightarrow> frame p q \<and> at_end q"
proof (induction n arbitrary: ss p)
  case 0
  then show ?case by simp
next
  case (Suc n)
  from Suc.prems show ?case
    by (auto simp add: parse_loop_Suc andThen_Inr_iff split: if_splits
        dest!: Suc.IH stmt_frame(1) elim: frame_trans)
qed

section \<open>A larger bound on the call depth gives the same result\<close>

lemma andThen_Some_iff:
  "andThen m f = Some r \<longleftrightarrow>
     (\<exists>e. m = Some (Inl e) \<and> r = Inl e) \<or> (\<exists>a q. m = Some (Inr (a, q)) \<and> f a q = Some r)"
  by (auto simp add: andThen_def split: option.splits sum.splits)

lemma andThen_SomeE:
  assumes "andThen m f = Some r"
  obtains e where "m = Some (Inl e)" and "r = Inl e"
  | a q where "m = Some (Inr (a, q))" and "f a q = Some r"
  using assms by (auto simp add: andThen_Some_iff)

lemma expr_fuel_mono:
  fixes p :: "'v Parser"
  shows "expr n p = Some r \<Longrightarrow> expr (n + k) p = Some r"
    and "equality n p = Some r \<Longrightarrow> equality (n + k) p = Some r"
    and "equality_loop n l p = Some r \<Longrightarrow> equality_loop (n + k) l p = Some r"
    and "comparison n p = Some r \<Longrightarrow> comparison (n + k) p = Some r"
    and "comparison_loop n l p = Some r \<Longrightarrow> comparison_loop (n + k) l p = Some r"
    and "term n p = Some r \<Longrightarrow> term (n + k) p = Some r"
    and "term_loop n l p = Some r \<Longrightarrow> term_loop (n + k) l p = Some r"
    and "factor n p = Some r \<Longrightarrow> factor (n + k) p = Some r"
    and "factor_loop n l p = Some r \<Longrightarrow> factor_loop (n + k) l p = Some r"
    and "unary n p = Some r \<Longrightarrow> unary (n + k) p = Some r"
    and "primary n p = Some r \<Longrightarrow> primary (n + k) p = Some r"
proof (induction n p and n p and n l p and n p and n l p and n p and n l p and n p and n l p
    and n p and n p arbitrary: r and r and r and r and r and r and r and r and r and r and r
    rule: expr_fuel_induct)
  case (expr n p)
  from expr.prems show ?case by (auto dest!: expr.IH)
next
  case (equality n p)
  from equality.prems show ?case
    by (auto elim!: andThen_SomeE dest!: equality.IH)
next
  case (equality_loop n l p)
  from equality_loop.prems show ?case
    by (auto simp add: expr_Suc split: if_splits elim!: andThen_SomeE dest!: equality_loop.IH)
next
  case (comparison n p)
  from comparison.prems show ?case
    by (auto elim!: andThen_SomeE dest!: comparison.IH)
next
  case (comparison_loop n l p)
  from comparison_loop.prems show ?case
    by (auto simp add: expr_Suc split: if_splits elim!: andThen_SomeE dest!: comparison_loop.IH)
next
  case (term_proc n p)
  from term_proc.prems show ?case
    by (auto elim!: andThen_SomeE dest!: term_proc.IH)
next
  case (term_loop n l p)
  from term_loop.prems show ?case
    by (auto simp add: expr_Suc split: if_splits elim!: andThen_SomeE dest!: term_loop.IH)
next
  case (factor n p)
  from factor.prems show ?case
    by (auto elim!: andThen_SomeE dest!: factor.IH)
next
  case (factor_loop n l p)
  from factor_loop.prems show ?case
    by (auto simp add: expr_Suc split: if_splits elim!: andThen_SomeE dest!: factor_loop.IH)
next
  case (unary n p)
  from unary.prems show ?case
    by (auto simp add: expr_Suc split: if_splits elim!: andThen_SomeE dest!: unary.IH)
next
  case (primary n p)
  from primary.prems show ?case
    by (auto simp add: expr_Suc split: if_splits elim!: andThen_SomeE dest!: primary.IH)
qed simp_all

lemma stmt_fuel_mono:
  fixes p :: "'v Parser"
  shows "statement n p = Some r \<Longrightarrow> statement (n + k) p = Some r"
    and "blockStmt n p = Some r \<Longrightarrow> blockStmt (n + k) p = Some r"
    and "blockStmt_loop n ss p = Some r' \<Longrightarrow> blockStmt_loop (n + k) ss p = Some r'"
    and "printStatement n p = Some r \<Longrightarrow> printStatement (n + k) p = Some r"
    and "IfStatement n p = Some r \<Longrightarrow> IfStatement (n + k) p = Some r"
    and "expressionStatement n p = Some r \<Longrightarrow> expressionStatement (n + k) p = Some r"
proof (induction n p and n p and n ss p and n p and n p and n p
    arbitrary: r and r and r' and r and r and r rule: stmt_fuel_induct)
  case (statement n p)
  from statement.prems show ?case
    by (auto simp add: stmt_Suc split: if_splits dest!: statement.IH)
next
  case (blockStmt n p)
  from blockStmt.prems show ?case
    by (auto simp add: stmt_Suc split: if_splits elim!: andThen_SomeE dest!: blockStmt.IH)
next
  case (blockStmt_loop n ss p)
  from blockStmt_loop.prems show ?case
    by (auto simp add: stmt_Suc split: if_splits elim!: andThen_SomeE dest!: blockStmt_loop.IH)
next
  case (printStatement n p)
  from printStatement.prems show ?case
    by (auto simp add: stmt_Suc split: if_splits elim!: andThen_SomeE dest!: expr_fuel_mono(1) [where n = n and k = k])
next
  case (IfStatement n p)
  from IfStatement.prems show ?case
    by (auto simp add: stmt_Suc split: if_splits elim!: andThen_SomeE
        dest!: expr_fuel_mono(1) [where n = n and k = k] IfStatement.IH)
next
  case (expressionStatement n p)
  from expressionStatement.prems show ?case
    by (auto simp add: stmt_Suc split: if_splits elim!: andThen_SomeE dest!: expr_fuel_mono(1) [where n = n and k = k])
qed simp_all

lemma parse_loop_fuel_mono:
  "parse_loop n ss p = Some r \<Longrightarrow> parse_loop (n + k) ss p = Some r"
proof (induction n arbitrary: ss p r)
  case 0
  then show ?case by simp
next
  case (Suc n)
  from Suc.prems show ?case
    by (auto simp add: parse_loop_Suc split: if_splits elim!: andThen_SomeE
        dest!: Suc.IH stmt_fuel_mono(1) [where n = n and k = k])
qed

section \<open>The bound on the call depth is reached only when it is too small\<close>

lemma andThen_NoneE:
  assumes "andThen m f = None"
  obtains "m = None" | a q where "m = Some (Inr (a, q))" and "f a q = None"
  using assms by (auto simp add: andThen_def split: option.splits sum.splits)

lemma looking_at_step:
  "looking_at ty p \<Longrightarrow> frame p (step p) \<and> current p < length (tokens p)"
  by (simp add: frame_step) (simp add: looking_at_def)

lemma expr_fuel_enough:
  fixes p :: "'v Parser"
  shows "expr n p = None \<Longrightarrow> n < 16 * remaining p + 11"
    and "equality n p = None \<Longrightarrow> n < 16 * remaining p + 10"
    and "equality_loop n l p = None \<Longrightarrow> n < 16 * remaining p + 9"
    and "comparison n p = None \<Longrightarrow> n < 16 * remaining p + 8"
    and "comparison_loop n l p = None \<Longrightarrow> n < 16 * remaining p + 7"
    and "term n p = None \<Longrightarrow> n < 16 * remaining p + 6"
    and "term_loop n l p = None \<Longrightarrow> n < 16 * remaining p + 5"
    and "factor n p = None \<Longrightarrow> n < 16 * remaining p + 4"
    and "factor_loop n l p = None \<Longrightarrow> n < 16 * remaining p + 3"
    and "unary n p = None \<Longrightarrow> n < 16 * remaining p + 2"
    and "primary n p = None \<Longrightarrow> n < 16 * remaining p + 1"
proof (induction n p and n p and n l p and n p and n l p and n p and n l p and n p and n l p
    and n p and n p rule: expr_fuel_induct)
  case (expr n p)
  from expr.prems show ?case by (auto dest!: expr.IH)
next
  case (equality n p)
  from equality.prems show ?case
    by (auto simp add: remaining_def frame_def elim!: andThen_NoneE
        dest!: equality.IH expr_frame(4))
next
  case (equality_loop n l p)
  from equality_loop.prems show ?case
    by (auto simp add: expr_Suc remaining_def frame_def split: if_splits
        elim!: andThen_NoneE dest!: equality_loop.IH expr_frame(4) looking_at_step)
next
  case (comparison n p)
  from comparison.prems show ?case
    by (auto simp add: remaining_def frame_def elim!: andThen_NoneE
        dest!: comparison.IH expr_frame(6))
next
  case (comparison_loop n l p)
  from comparison_loop.prems show ?case
    by (auto simp add: expr_Suc remaining_def frame_def split: if_splits
        elim!: andThen_NoneE dest!: comparison_loop.IH expr_frame(6) looking_at_step)
next
  case (term_proc n p)
  from term_proc.prems show ?case
    by (auto simp add: remaining_def frame_def elim!: andThen_NoneE
        dest!: term_proc.IH expr_frame(8))
next
  case (term_loop n l p)
  from term_loop.prems show ?case
    by (auto simp add: expr_Suc remaining_def frame_def split: if_splits
        elim!: andThen_NoneE dest!: term_loop.IH expr_frame(8) looking_at_step)
next
  case (factor n p)
  from factor.prems show ?case
    by (auto simp add: remaining_def frame_def elim!: andThen_NoneE
        dest!: factor.IH expr_frame(10))
next
  case (factor_loop n l p)
  from factor_loop.prems show ?case
    by (auto simp add: expr_Suc remaining_def frame_def split: if_splits
        elim!: andThen_NoneE dest!: factor_loop.IH expr_frame(10) looking_at_step)
next
  case (unary n p)
  from unary.prems show ?case
    by (auto simp add: expr_Suc remaining_def frame_def split: if_splits
        elim!: andThen_NoneE dest!: unary.IH looking_at_step)
next
  case (primary n p)
  from primary.prems show ?case
    by (auto simp add: expr_Suc remaining_def frame_def split: if_splits
        elim!: andThen_NoneE dest!: primary.IH looking_at_step)
qed simp_all

lemma statement_remaining:
  "statement n p = Some (Inr (s, q)) \<Longrightarrow>
     in_range p \<longrightarrow> in_range q \<and> remaining q < remaining p"
  using limit_le_length [of "tokens p"]
  by (auto simp add: frame_def in_range_def remaining_def dest!: stmt_frame(1))

lemma stmt_fuel_enough:
  fixes p :: "'v Parser"
  shows "statement n p = None \<Longrightarrow> in_range p \<longrightarrow> n < 16 * remaining p + 13"
    and "blockStmt n p = None \<Longrightarrow> in_range p \<longrightarrow> n < 16 * remaining p + 15"
    and "blockStmt_loop n ss p = None \<Longrightarrow> in_range p \<longrightarrow> n < 16 * remaining p + 14"
    and "printStatement n p = None \<Longrightarrow> in_range p \<longrightarrow> n < 16 * remaining p + 12"
    and "IfStatement n p = None \<Longrightarrow> in_range p \<longrightarrow> n < 16 * remaining p + 14"
    and "expressionStatement n p = None \<Longrightarrow> in_range p \<longrightarrow> n < 16 * remaining p + 12"
proof (induction n p and n p and n ss p and n p and n p and n p rule: stmt_fuel_induct)
  case (statement n p)
  from statement.prems show ?case
    by (auto simp add: stmt_Suc remaining_def frame_def split: if_splits
        dest!: statement.IH looking_at_step)
next
  case (blockStmt n p)
  from blockStmt.prems show ?case
    by (auto simp add: stmt_Suc remaining_def frame_def split: if_splits
        elim!: andThen_NoneE dest!: blockStmt.IH)
next
  case (blockStmt_loop n ss p)
  from blockStmt_loop.prems show ?case
    by (auto simp add: stmt_Suc split: if_splits
        elim!: andThen_NoneE dest!: blockStmt_loop.IH statement_remaining)
next
  case (printStatement n p)
  from printStatement.prems show ?case
    by (auto simp add: stmt_Suc remaining_def frame_def split: if_splits
        elim!: andThen_NoneE dest!: expr_fuel_enough(1))
next
  case (IfStatement n p)
  from IfStatement.prems show ?case
    by (auto simp add: stmt_Suc remaining_def frame_def split: if_splits
        elim!: andThen_NoneE
        dest!: expr_fuel_enough(1) IfStatement.IH expr_frame(1) stmt_frame(1) looking_at_step)
next
  case (expressionStatement n p)
  from expressionStatement.prems show ?case
    by (auto simp add: stmt_Suc remaining_def frame_def split: if_splits
        elim!: andThen_NoneE dest!: expr_fuel_enough(1))
qed simp_all

lemma parse_loop_fuel_enough:
  "parse_loop n ss p = None \<Longrightarrow> in_range p \<Longrightarrow> n < 16 * remaining p + 14"
proof (induction n arbitrary: ss p)
  case 0
  then show ?case by simp
next
  case (Suc n)
  from Suc.prems show ?case
    by (auto simp add: parse_loop_Suc split: if_splits
        elim!: andThen_NoneE dest!: Suc.IH stmt_fuel_enough(1) statement_remaining)
qed

section \<open>The parser as a whole\<close>

lemma in_range_new [simp]: "in_range (new_Parser toks)"
  by (simp add: in_range_def new_Parser_def)

lemma remaining_new [simp]: "remaining (new_Parser toks) = length toks"
  by (simp add: remaining_def new_Parser_def)

lemma parse_loop_enough:
  assumes "fuel_bound toks \<le> n"
  shows "parse_loop n [] (new_Parser toks) \<noteq> None"
  using parse_loop_fuel_enough [of n "[]" "new_Parser toks"] assms
  by (auto simp add: fuel_bound_def)

lemma parse_total: "parse toks \<noteq> None"
  using parse_loop_enough [of toks "fuel_bound toks"]
  by (auto simp add: parse_def parse_fuel_def split: option.splits sum.splits)

lemma parse_fuel_independent:
  assumes "fuel_bound toks \<le> n"
  shows "parse_fuel n toks = parse toks"
proof -
  obtain r where r: "parse_loop (fuel_bound toks) [] (new_Parser toks) = Some r"
    using parse_loop_enough [of toks "fuel_bound toks"] by auto
  from assms obtain k where "n = fuel_bound toks + k"
    using le_Suc_ex by blast
  with parse_loop_fuel_mono [OF r, of k] r show ?thesis
    by (simp add: parse_def parse_fuel_def)
qed

lemmas run_simps = parse_def parse_fuel_def fuel_bound_def new_Parser_def numeral_eq_Suc
  expr_Suc stmt_Suc parse_loop_Suc looking_at_def at_end_def step_def quote_def token_def

section \<open>Brackets\<close>

lemma unclosed_append:
  "unclosed opn cls d (xs @ ys) = unclosed opn cls (unclosed opn cls d xs) ys"
  by (induction xs arbitrary: d) simp_all

lemma open_count_step:
  assumes "looking_at ty p"
  shows "open_count opn cls (step p) =
     (if ty = opn then open_count opn cls p + 1
      else if ty = cls then open_count opn cls p - 1
      else open_count opn cls p)"
proof -
  from assms have "take (Suc (current p)) (tokens p) =
      take (current p) (tokens p) @ [tokens p ! current p]"
    and "type (tokens p ! current p) = ty"
    by (simp_all add: looking_at_def take_Suc_conv_app_nth)
  then show ?thesis
    by (simp add: open_count_def unclosed_append)
qed

lemma expr_open_count:
  fixes p :: "'v Parser"
  assumes br: "brackets opn cls"
  shows "expr n p = Some (Inr (a, q)) \<Longrightarrow> open_count opn cls q = open_count opn cls p"
    and "equality n p = Some (Inr (a, q)) \<Longrightarrow> open_count opn cls q = open_count opn cls p"
    and "equality_loop n l p = Some (Inr (a, q)) \<Longrightarrow>
      open_count opn cls q = open_count opn cls p"
    and "comparison n p = Some (Inr (a, q)) \<Longrightarrow> open_count opn cls q = open_count opn cls p"
    and "comparison_loop n l p = Some (Inr (a, q)) \<Longrightarrow>
      open_count opn cls q = open_count opn cls p"
    and "term n p = Some (Inr (a, q)) \<Longrightarrow> open_count opn cls q = open_count opn cls p"
    and "term_loop n l p = Some (Inr (a, q)) \<Longrightarrow> open_count opn cls q = open_count opn cls p"
    and "factor n p = Some (Inr (a, q)) \<Longrightarrow> open_count opn cls q = open_count opn cls p"
    and "factor_loop n l p = Some (Inr (a, q)) \<Longrightarrow>
      open_count opn cls q = open_count opn cls p"
    and "unary n p = Some (Inr (a, q)) \<Longrightarrow> open_count opn cls q = open_count opn cls p"
    and "primary n p = Some (Inr (a, q)) \<Longrightarrow>
      \<not> looking_at LeftParen p \<longrightarrow> open_count opn cls q = open_count opn cls p"
proof (induction n p and n p and n l p and n p and n l p and n p and n l p and n p and n l p
    and n p and n p arbitrary: a q and a q and a q and a q and a q and a q and a q and a q
    and a q and a q and a q rule: expr_fuel_induct)
  case (expr n p)
  from expr.prems show ?case by (auto dest!: expr.IH)
next
  case (equality n p)
  from equality.prems show ?case
    by (auto simp add: andThen_Inr_iff dest!: equality.IH)
next
  case (equality_loop n l p)
  from equality_loop.prems br show ?case
    by (auto simp add: expr_Suc andThen_Inr_iff brackets_def split: if_splits
        dest!: equality_loop.IH open_count_step [where opn = opn and cls = cls])
next
  case (comparison n p)
  from comparison.prems show ?case
    by (auto simp add: andThen_Inr_iff dest!: comparison.IH)
next
  case (comparison_loop n l p)
  from comparison_loop.prems br show ?case
    by (auto simp add: expr_Suc andThen_Inr_iff brackets_def split: if_splits
        dest!: comparison_loop.IH open_count_step [where opn = opn and cls = cls])
next
  case (term_proc n p)
  from term_proc.prems show ?case
    by (auto simp add: andThen_Inr_iff dest!: term_proc.IH)
next
  case (term_loop n l p)
  from term_loop.prems br show ?case
    by (auto simp add: expr_Suc andThen_Inr_iff brackets_def split: if_splits
        dest!: term_loop.IH open_count_step [where opn = opn and cls = cls])
next
  case (factor n p)
  from factor.prems show ?case
    by (auto simp add: andThen_Inr_iff dest!: factor.IH)
next
  case (factor_loop n l p)
  from factor_loop.prems br show ?case
    by (auto simp add: expr_Suc andThen_Inr_iff brackets_def split: if_splits
        dest!: factor_loop.IH open_count_step [where opn = opn and cls = cls])
next
  case (unary n p)
  from unary.prems br show ?case
    by (auto simp add: expr_Suc andThen_Inr_iff brackets_def split: if_splits
        dest!: unary.IH open_count_step [where opn = opn and cls = cls])
next
  case (primary n p)
  from primary.prems br show ?case
    by (auto simp add: expr_Suc andThen_Inr_iff brackets_def split: if_splits
        dest!: primary.IH open_count_step [where opn = opn and cls = cls])
qed simp_all

lemma stmt_open_count:
  fixes p :: "'v Parser"
  assumes br: "brackets opn cls"
  shows "statement n p = Some (Inr (s, q)) \<Longrightarrow> open_count opn cls q = open_count opn cls p"
    and "blockStmt n p = Some (Inr (s, q)) \<Longrightarrow>
      open_count opn cls q =
        (if cls = RightBrace then open_count opn cls p - 1 else open_count opn cls p)"
    and "blockStmt_loop n ss p = Some (Inr (ss', q)) \<Longrightarrow>
      open_count opn cls q = open_count opn cls p"
    and "printStatement n p = Some (Inr (s, q)) \<Longrightarrow>
      open_count opn cls q = open_count opn cls p"
    and "IfStatement n p = Some (Inr (s, q)) \<Longrightarrow>
      open_count opn cls q = open_count opn cls p"
    and "expressionStatement n p = Some (Inr (s, q)) \<Longrightarrow>
      open_count opn cls q = open_count opn cls p"
proof (induction n p and n p and n ss p and n p and n p and n p
    arbitrary: s q and s q and ss' q and s q and s q and s q rule: stmt_fuel_induct)
  case (statement n p)
  from statement.prems br show ?case
    by (auto simp add: stmt_Suc brackets_def split: if_splits
        dest!: statement.IH open_count_step [where opn = opn and cls = cls])
next
  case (blockStmt n p)
  from blockStmt.prems br show ?case
    by (auto simp add: stmt_Suc andThen_Inr_iff brackets_def split: if_splits
        dest!: blockStmt.IH open_count_step [where opn = opn and cls = cls])
next
  case (blockStmt_loop n ss p)
  from blockStmt_loop.prems show ?case
    by (auto simp add: stmt_Suc andThen_Inr_iff split: if_splits
        dest!: blockStmt_loop.IH)
next
  case (printStatement n p)
  from printStatement.prems br show ?case
    by (auto simp add: stmt_Suc andThen_Inr_iff brackets_def split: if_splits
        dest!: expr_open_count(1) [OF br] open_count_step [where opn = opn and cls = cls])
next
  case (IfStatement n p)
  from IfStatement.prems br show ?case
    by (auto simp add: stmt_Suc andThen_Inr_iff brackets_def split: if_splits
        dest!: expr_open_count(1) [OF br] IfStatement.IH
          open_count_step [where opn = opn and cls = cls])
next
  case (expressionStatement n p)
  from expressionStatement.prems br show ?case
    by (auto simp add: stmt_Suc andThen_Inr_iff brackets_def split: if_splits
        dest!: expr_open_count(1) [OF br] open_count_step [where opn = opn and cls = cls])
qed simp_all

lemma parse_loop_open_count:
  assumes "brackets opn cls"
  shows "parse_loop n ss p = Some (Inr (ss', q)) \<Longrightarrow>
    open_count opn cls q = open_count opn cls p"
proof (induction n arbitrary: ss p)
  case 0
  then show ?case by simp
next
  case (Suc n)
  from Suc.prems show ?case
    by (auto simp add: parse_loop_Suc andThen_Inr_iff split: if_splits
        dest!: Suc.IH stmt_open_count(1) [OF assms])
qed

section \<open>With an end marker ahead no access is out of bounds\<close>

lemma guarded_frame: "frame p q \<Longrightarrow> guarded p \<Longrightarrow> guarded q"
  by (simp add: guarded_def frame_def)

lemma guarded_step: "looking_at ty p \<Longrightarrow> guarded p \<longrightarrow> guarded (step p)"
  using guarded_frame [of p "step p"] by (simp add: frame_step)

lemma guarded_current: "guarded p \<Longrightarrow> current p < length (tokens p)"
  by (simp add: guarded_def in_range_def)

lemma andThen_InlE:
  assumes "andThen m f = Some (Inl e)"
  obtains "m = Some (Inl e)" | a q where "m = Some (Inr (a, q))" and "f a q = Some (Inl e)"
  using assms by (auto simp add: andThen_Inl_iff)

lemma expr_guarded:
  fixes p :: "'v Parser"
  shows "expr n p = Some (Inr (a, q)) \<Longrightarrow> guarded p \<longrightarrow> guarded q"
    and "equality n p = Some (Inr (a, q)) \<Longrightarrow> guarded p \<longrightarrow> guarded q"
    and "equality_loop n l p = Some (Inr (a, q)) \<Longrightarrow> guarded p \<longrightarrow> guarded q"
    and "comparison n p = Some (Inr (a, q)) \<Longrightarrow> guarded p \<longrightarrow> guarded q"
    and "comparison_loop n l p = Some (Inr (a, q)) \<Longrightarrow> guarded p \<longrightarrow> guarded q"
    and "term n p = Some (Inr (a, q)) \<Longrightarrow> guarded p \<longrightarrow> guarded q"
    and "term_loop n l p = Some (Inr (a, q)) \<Longrightarrow> guarded p \<longrightarrow> guarded q"
    and "factor n p = Some (Inr (a, q)) \<Longrightarrow> guarded p \<longrightarrow> guarded q"
    and "factor_loop n l p = Some (Inr (a, q)) \<Longrightarrow> guarded p \<longrightarrow> guarded q"
    and "unary n p = Some (Inr (a, q)) \<Longrightarrow> guarded p \<longrightarrow> guarded q"
    and "primary n p = Some (Inr (a, q)) \<Longrightarrow> guarded p \<longrightarrow> guarded q"
  by (blast dest: expr_frame guarded_frame)+

lemma expr_in_bounds:
  fixes p :: "'v Parser"
  shows "expr n p = Some (Inl OutOfBounds) \<Longrightarrow> \<not> guarded p"
    and "equality n p = Some (Inl OutOfBounds) \<Longrightarrow> \<not> guarded p"
    and "equality_loop n l p = Some (Inl OutOfBounds) \<Longrightarrow> \<not> guarded p"
    and "comparison n p = Some (Inl OutOfBounds) \<Longrightarrow> \<not> guarded p"
    and "comparison_loop n l p = Some (Inl OutOfBounds) \<Longrightarrow> \<not> guarded p"
    and "term n p = Some (Inl OutOfBounds) \<Longrightarrow> \<not> guarded p"
    and "term_loop n l p = Some (Inl OutOfBounds) \<Longrightarrow> \<not> guarded p"
    and "factor n p = Some (Inl OutOfBounds) \<Longrightarrow> \<not> guarded p"
    and "factor_loop n l p = Some (Inl OutOfBounds) \<Longrightarrow> \<not> guarded p"
    and "unary n p = Some (Inl OutOfBounds) \<Longrightarrow> \<not> guarded p"
    and "primary n p = Some (Inl OutOfBounds) \<Longrightarrow> \<not> guarded p"
proof (induction n p and n p and n l p and n p and n l p and n p and n l p and n p and n l p
    and n p and n p rule: expr_fuel_induct)
  case (expr n p)
  from expr.prems show ?case by (auto dest!: expr.IH)
next
  case (equality n p)
  from equality.prems show ?case
    by (auto elim!: andThen_InlE dest!: equality.IH expr_guarded(4))
next
  case (equality_loop n l p)
  from equality_loop.prems show ?case
    by (auto simp add: expr_Suc split: if_splits elim!: andThen_InlE
        dest!: equality_loop.IH expr_guarded(4) guarded_step)
next
  case (comparison n p)
  from comparison.prems show ?case
    by (auto elim!: andThen_InlE dest!: comparison.IH expr_guarded(6))
next
  case (comparison_loop n l p)
  from comparison_loop.prems show ?case
    by (auto simp add: expr_Suc split: if_splits elim!: andThen_InlE
        dest!: comparison_loop.IH expr_guarded(6) guarded_step)
next
  case (term_proc n p)
  from term_proc.prems show ?case
    by (auto elim!: andThen_InlE dest!: term_proc.IH expr_guarded(8))
next
  case (term_loop n l p)
  from term_loop.prems show ?case
    by (auto simp add: expr_Suc split: if_splits elim!: andThen_InlE
        dest!: term_loop.IH expr_guarded(8) guarded_step)
next
  case (factor n p)
  from factor.prems show ?case
    by (auto elim!: andThen_InlE dest!: factor.IH expr_guarded(10))
next
  case (factor_loop n l p)
  from factor_loop.prems show ?case
    by (auto simp add: expr_Suc split: if_splits elim!: andThen_InlE
        dest!: factor_loop.IH expr_guarded(10) guarded_step)
next
  case (unary n p)
  from unary.prems show ?case
    by (auto simp add: expr_Suc split: if_splits elim!: andThen_InlE
        dest!: unary.IH guarded_step)
next
  case (primary n p)
  from primary.prems show ?case
    by (auto simp add: expr_Suc guarded_current split: if_splits elim!: andThen_InlE
        dest!: primary.IH guarded_step)
qed simp_all

lemma stmt_guarded:
  fixes p :: "'v Parser"
  shows "statement n p = Some (Inr (s, q)) \<Longrightarrow> guarded p \<longrightarrow> guarded q"
    and "blockStmt_loop n ss p = Some (Inr (ss', q)) \<Longrightarrow> guarded p \<longrightarrow> guarded q"
  by (blast dest: stmt_frame guarded_frame)+

lemma stmt_in_bounds:
  fixes p :: "'v Parser"
  shows "statement n p = Some (Inl OutOfBounds) \<Longrightarrow> \<not> guarded p"
    and "blockStmt n p = Some (Inl OutOfBounds) \<Longrightarrow> \<not> guarded p"
    and "blockStmt_loop n ss p = Some (Inl OutOfBounds) \<Longrightarrow> \<not> guarded p"
    and "printStatement n p = Some (Inl OutOfBounds) \<Longrightarrow> \<not> guarded p"
    and "IfStatement n p = Some (Inl OutOfBounds) \<Longrightarrow> \<not> guarded p"
    and "expressionStatement n p = Some (Inl OutOfBounds) \<Longrightarrow> \<not> guarded p"
proof (induction n p and n p and n ss p and n p and n p and n p rule: stmt_fuel_induct)
  case (statement n p)
  from statement.prems show ?case
    by (auto simp add: stmt_Suc split: if_splits dest!: statement.IH guarded_step)
next
  case (blockStmt n p)
  from blockStmt.prems show ?case
    by (auto simp add: stmt_Suc split: if_splits elim!: andThen_InlE dest!: blockStmt.IH)
next
  case (blockStmt_loop n ss p)
  from blockStmt_loop.prems show ?case
    by (auto simp add: stmt_Suc split: if_splits elim!: andThen_InlE
        dest!: blockStmt_loop.IH stmt_guarded(1))
next
  case (printStatement n p)
  from printStatement.prems show ?case
    by (auto simp add: stmt_Suc split: if_splits elim!: andThen_InlE
        dest!: expr_in_bounds(1))
next
  case (IfStatement n p)
  from IfStatement.prems show ?case
    by (auto simp add: stmt_Suc split: if_splits elim!: andThen_InlE
        dest!: expr_in_bounds(1) IfStatement.IH expr_guarded(1) stmt_guarded(1) guarded_step)
next
  case (expressionStatement n p)
  from expressionStatement.prems show ?case
    by (auto simp add: stmt_Suc split: if_splits elim!: andThen_InlE
        dest!: expr_in_bounds(1))
qed simp_all

lemma parse_loop_in_bounds:
  "parse_loop n ss p = Some (Inl OutOfBounds) \<Longrightarrow> \<not> guarded p"
proof (induction n arbitrary: ss p)
  case 0
  then show ?case by simp
next
  case (Suc n)
  from Suc.prems show ?case
    by (auto simp add: parse_loop_Suc split: if_splits elim!: andThen_InlE
        dest!: Suc.IH stmt_in_bounds(1) stmt_guarded(1))
qed

section \<open>What a successful parse says about the token sequence\<close>

lemma has_Eof_limit:
  assumes "Eof \<in> type ` set toks"
  shows "limit toks < length toks"
proof (rule ccontr)
  assume "\<not> limit toks < length toks"
  with limit_le_length [of toks] have "limit toks = length toks"
    by simp
  with takeWhile_eq_take [of "\<lambda>t. type t \<noteq> Eof" toks]
  have "takeWhile (\<lambda>t. type t \<noteq> Eof) toks = toks"
    by (simp add: limit_def)
  then have "\<forall>t\<in>set toks. type t \<noteq> Eof"
    by simp
  with assms show False
    by auto
qed

lemma guarded_new: "Eof \<in> type ` set toks \<Longrightarrow> guarded (new_Parser toks)"
  by (simp add: guarded_def in_range_def new_Parser_def has_Eof_limit)

lemma parse_in_bounds:
  assumes "Eof \<in> type ` set toks"
  shows "parse toks \<noteq> Some (Inl OutOfBounds)"
  using parse_loop_in_bounds [of "fuel_bound toks" "[]" "new_Parser toks"] guarded_new [OF assms]
  by (auto simp add: parse_def parse_fuel_def split: option.splits sum.splits)

lemma at_end_limit:
  assumes "guarded p" and "at_end p"
  shows "current p = limit (tokens p)"
proof -
  from assms have "type (tokens p ! current p) = Eof" and "current p \<le> limit (tokens p)"
    by (auto simp add: guarded_def at_end_def in_range_def)
  with before_limit [of "current p" "tokens p"] show ?thesis
    by (cases "current p < limit (tokens p)") auto
qed

lemma open_count_limit:
  assumes "current p = limit (tokens p)"
  shows "open_count opn cls p = unclosed opn cls 0 (before_Eof (tokens p))"
  using assms takeWhile_eq_take [of "\<lambda>t. type t \<noteq> Eof" "tokens p"]
  by (simp add: open_count_def before_Eof_def limit_def)

lemma parse_closes_brackets:
  assumes "parse toks = Some (Inr ss)" and "Eof \<in> type ` set toks" and "brackets opn cls"
  shows "unclosed opn cls 0 (before_Eof toks) = 0"
proof -
  from assms(1) obtain q where
    run: "parse_loop (fuel_bound toks) [] (new_Parser toks) = Some (Inr (ss, q))"
    by (auto simp add: parse_def parse_fuel_def split: option.splits sum.splits)
  from parse_loop_frame [OF run] have f: "frame (new_Parser toks) q" and e: "at_end q"
    by simp_all
  from f have t: "tokens q = toks"
    by (simp add: frame_def new_Parser_def)
  from guarded_frame [OF f guarded_new [OF assms(2)]] e have "current q = limit (tokens q)"
    by (rule at_end_limit)
  then have "open_count opn cls q = unclosed opn cls 0 (before_Eof toks)"
    using open_count_limit [of q opn cls] t by simp
  moreover have "open_count opn cls (new_Parser toks) = 0"
    by (simp add: open_count_def new_Parser_def)
  ultimately show ?thesis
    using parse_loop_open_count [OF assms(3) run] by simp
qed

lemma unclosed_bracket_fails:
  assumes "Eof \<in> type ` set toks" and "brackets opn cls"
    and "0 < unclosed opn cls 0 (before_Eof toks)"
  shows "\<exists>msg. parse toks = Some (Inl (SyntaxError msg))"
proof -
  obtain r where r: "parse toks = Some r"
    using parse_total [of toks] by auto
  show ?thesis
  proof (cases r)
    case (Inl e)
    with r parse_in_bounds [OF assms(1)] show ?thesis
      by (cases e) auto
  next
    case (Inr ss)
    with r parse_closes_brackets [OF _ assms(1,2)] assms(3) show ?thesis
      by auto
  qed
qed

section \<open>No variable nodes\<close>

lemma expr_no_variable:
  fixes p :: "'v Parser"
  shows "expr n p = Some (Inr (a, q)) \<Longrightarrow> \<not> has_VariableExpr a"
    and "equality n p = Some (Inr (a, q)) \<Longrightarrow> \<not> has_VariableExpr a"
    and "equality_loop n l p = Some (Inr (a, q)) \<Longrightarrow>
      \<not> has_VariableExpr l \<longrightarrow> \<not> has_VariableExpr a"
    and "comparison n p = Some (Inr (a, q)) \<Longrightarrow> \<not> has_VariableExpr a"
    and "comparison_loop n l p = Some (Inr (a, q)) \<Longrightarrow>
      \<not> has_VariableExpr l \<longrightarrow> \<not> has_VariableExpr a"
    and "term n p = Some (Inr (a, q)) \<Longrightarrow> \<not> has_VariableExpr a"
    and "term_loop n l p = Some (Inr (a, q)) \<Longrightarrow>
      \<not> has_VariableExpr l \<longrightarrow> \<not> has_VariableExpr a"
    and "factor n p = Some (Inr (a, q)) \<Longrightarrow> \<not> has_VariableExpr a"
    and "factor_loop n l p = Some (Inr (a, q)) \<Longrightarrow>
      \<not> has_VariableExpr l \<longrightarrow> \<not> has_VariableExpr a"
    and "unary n p = Some (Inr (a, q)) \<Longrightarrow> \<not> has_VariableExpr a"
    and "primary n p = Some (Inr (a, q)) \<Longrightarrow> \<not> has_VariableExpr a"
proof (induction n p and n p and n l p and n p and n l p and n p and n l p and n p and n l p
    and n p and n p arbitrary: a q and a q and a q and a q and a q and a q and a q and a q
    and a q and a q and a q rule: expr_fuel_induct)
  case (expr n p)
  from expr.prems show ?case by (auto dest!: expr.IH)
next
  case (equality n p)
  from equality.prems show ?case
    by (auto simp add: andThen_Inr_iff dest!: equality.IH)
next
  case (equality_loop n l p)
  from equality_loop.prems show ?case
    by (auto simp add: expr_Suc andThen_Inr_iff split: if_splits dest!: equality_loop.IH)
next
  case (comparison n p)
  from comparison.prems show ?case
    by (auto simp add: andThen_Inr_iff dest!: comparison.IH)
next
  case (comparison_loop n l p)
  from comparison_loop.prems show ?case
    by (auto simp add: expr_Suc andThen_Inr_iff split: if_splits dest!: comparison_loop.IH)
next
  case (term_proc n p)
  from term_proc.prems show ?case
    by (auto simp add: andThen_Inr_iff dest!: term_proc.IH)
next
  case (term_loop n l p)
  from term_loop.prems show ?case
    by (auto simp add: expr_Suc andThen_Inr_iff split: if_splits dest!: term_loop.IH)
next
  case (factor n p)
  from factor.prems show ?case
    by (auto simp add: andThen_Inr_iff dest!: factor.IH)
next
  case (factor_loop n l p)
  from factor_loop.prems show ?case
    by (auto simp add: expr_Suc andThen_Inr_iff split: if_splits dest!: factor_loop.IH)
next
  case (unary n p)
  from unary.prems show ?case
    by (auto simp add: expr_Suc andThen_Inr_iff split: if_splits dest!: unary.IH)
next
  case (primary n p)
  from primary.prems show ?case
    by (auto simp add: expr_Suc andThen_Inr_iff split: if_splits dest!: primary.IH)
qed simp_all

lemma stmt_no_variable:
  fixes p :: "'v Parser"
  shows "statement n p = Some (Inr (s, q)) \<Longrightarrow> \<not> has_Var s"
    and "blockStmt n p = Some (Inr (s, q)) \<Longrightarrow> \<not> has_Var s"
    and "blockStmt_loop n ss p = Some (Inr (ss', q)) \<Longrightarrow>
      \<not> list_ex has_Var ss \<longrightarrow> \<not> list_ex has_Var ss'"
    and "printStatement n p = Some (Inr (s, q)) \<Longrightarrow> \<not> has_Var s"
    and "IfStatement n p = Some (Inr (s, q)) \<Longrightarrow> \<not> has_Var s"
    and "expressionStatement n p = Some (Inr (s, q)) \<Longrightarrow> \<not> has_Var s"
proof (induction n p and n p and n ss p and n p and n p and n p
    arbitrary: s q and s q and ss' q and s q and s q and s q rule: stmt_fuel_induct)
  case (statement n p)
  from statement.prems show ?case
    by (auto simp add: stmt_Suc split: if_splits dest!: statement.IH)
next
  case (blockStmt n p)
  from blockStmt.prems show ?case
    by (auto simp add: stmt_Suc andThen_Inr_iff split: if_splits dest!: blockStmt.IH)
next
  case (blockStmt_loop n ss p)
  from blockStmt_loop.prems show ?case
    by (auto simp add: stmt_Suc andThen_Inr_iff split: if_splits dest!: blockStmt_loop.IH)
next
  case (printStatement n p)
  from printStatement.prems show ?case
    by (auto simp add: stmt_Suc andThen_Inr_iff split: if_splits dest!: expr_no_variable(1))
next
  case (IfStatement n p)
  from IfStatement.prems show ?case
    by (auto simp add: stmt_Suc andThen_Inr_iff split: if_splits
        dest!: expr_no_variable(1) IfStatement.IH)
next
  case (expressionStatement n p)
  from expressionStatement.prems show ?case
    by (auto simp add: stmt_Suc andThen_Inr_iff split: if_splits dest!: expr_no_variable(1))
qed simp_all

lemma parse_loop_no_variable:
  "parse_loop n ss p = Some (Inr (ss', q)) \<Longrightarrow>
     \<not> list_ex has_Var ss \<longrightarrow> \<not> list_ex has_Var ss'"
proof (induction n arbitrary: ss p)
  case 0
  then show ?case by simp
next
  case (Suc n)
  from Suc.prems show ?case
    by (auto simp add: parse_loop_Suc andThen_Inr_iff split: if_splits
        dest!: Suc.IH stmt_no_variable(1))
qed

lemma parse_no_variable: "parse toks = Some (Inr ss) \<Longrightarrow> \<not> list_ex has_Var ss"
  using parse_loop_no_variable [of "fuel_bound toks" "[]" "new_Parser toks" ss]
  by (auto simp add: parse_def parse_fuel_def split: option.splits sum.splits)

lemma primary_rejects:
  assumes "current p < length (tokens p)"
    and "type (tokens p ! current p) \<in> {Identifier, LetT}"
  shows "primary (Suc n) p = Some (Inl (SyntaxError
    (''Parsing Error - Unexpected token: '' @ lexeme (tokens p ! current p))))"
  using assms by (auto simp add: primary_Suc looking_at_def)

lemma expr_rejects_Suc:
  assumes "current p < length (tokens p)"
    and "type (tokens p ! current p) \<in> {Identifier, LetT}"
  shows "expr (Suc (Suc (Suc (Suc (Suc (Suc (Suc n))))))) p = Some (Inl (SyntaxError
    (''Parsing Error - Unexpected token: '' @ lexeme (tokens p ! current p))))"
proof -
  from assms have "\<not> looking_at ty p" if "ty \<in> {PlusT, Minus, LeftParen}" for ty
    using that by (auto simp add: looking_at_def)
  then show ?thesis
    using primary_rejects [OF assms, of n] by (simp add: unary_Suc)
qed

lemma statement_rejects_Suc:
  assumes "current p < length (tokens p)"
    and "type (tokens p ! current p) \<in> {Identifier, LetT}"
  shows "statement (Suc (Suc (Suc (Suc (Suc (Suc (Suc (Suc (Suc n))))))))) p =
    Some (Inl (SyntaxError
      (''Parsing Error - Unexpected token: '' @ lexeme (tokens p ! current p))))"
proof -
  from assms have "\<not> looking_at ty p" if "ty \<in> {Print, IfT, LeftBrace}" for ty
    using that by (auto simp add: looking_at_def)
  then show ?thesis
    using expr_rejects_Suc [OF assms, of n] by (simp add: stmt_Suc)
qed

lemma expr_rejects:
  assumes "current p < length (tokens p)"
    and "type (tokens p ! current p) \<in> {Identifier, LetT}"
  shows "expr (n + 7) p = Some (Inl (SyntaxError
    (''Parsing Error - Unexpected token: '' @ lexeme (tokens p ! current p))))"
proof -
  have "n + 7 = Suc (Suc (Suc (Suc (Suc (Suc (Suc n))))))"
    by simp
  then show ?thesis
    by (simp only: expr_rejects_Suc [OF assms])
qed

lemma statement_rejects:
  assumes "current p < length (tokens p)"
    and "type (tokens p ! current p) \<in> {Identifier, LetT}"
  shows "statement (n + 9) p = Some (Inl (SyntaxError
    (''Parsing Error - Unexpected token: '' @ lexeme (tokens p ! current p))))"
proof -
  have "n + 9 = Suc (Suc (Suc (Suc (Suc (Suc (Suc (Suc (Suc n))))))))"
    by simp
  then show ?thesis
    by (simp only: statement_rejects_Suc [OF assms])
qed

lemma parse_rejects:
  assumes "type t \<in> {Identifier, LetT}"
  shows "parse (t # rest) = Some (Inl (SyntaxError
    (''Parsing Error - Unexpected token: '' @ lexeme t)))"
proof -
  have e: "fuel_bound (t # rest) = Suc (16 * length rest + 22 + 9)"
    by (simp add: fuel_bound_def)
  from assms have "\<not> at_end (new_Parser (t # rest))"
    by (auto simp add: at_end_def new_Parser_def)
  moreover from assms have "statement (16 * length rest + 22 + 9) (new_Parser (t # rest)) =
      Some (Inl (SyntaxError (''Parsing Error - Unexpected token: '' @ lexeme t)))"
    using statement_rejects [of "new_Parser (t # rest)" "16 * length rest + 22"]
    by (simp add: new_Parser_def)
  ultimately show ?thesis
    by (simp only: parse_def parse_fuel_def e parse_loop_Suc) simp
qed

section \<open>Nested statements\<close>

lemma statement_fuel_agree:
  assumes "statement n p = Some r" and "statement m p = Some r'"
  shows "r = r'"
  using stmt_fuel_mono(1) [OF assms(1), of m] stmt_fuel_mono(1) [OF assms(2), of n]
  by (simp add: add.commute)

lemma looking_at_unique: "looking_at a p \<Longrightarrow> looking_at b p \<Longrightarrow> a = b"
  by (simp add: looking_at_def)

lemma nested_if_statement:
  assumes "looking_at IfT p0"
    and "expr n (step p0) = Some (Inr (c1, p1))"
    and "looking_at IfT p1"
    and "expr n (step p1) = Some (Inr (c2, p2))"
    and "statement n p2 = Some (Inr (s1, p3))"
    and "looking_at Else p3"
    and "statement n (step p3) = Some (Inr (s2, p4))"
    and "\<not> looking_at Else p4"
  shows "statement (n + 4) p0 = Some (Inr (IfStmt c1 (IfStmt c2 s1 (Some s2)) None, p4))"
proof -
  have inner: "IfStatement (Suc n) (step p1) = Some (Inr (IfStmt c2 s1 (Some s2), p4))"
    using assms(4-7) by (simp add: IfStatement_Suc)
  from assms(3) have "\<not> looking_at Print p1"
    by (auto dest: looking_at_unique)
  with assms(3) inner
  have middle: "statement (Suc (Suc n)) p1 = Some (Inr (IfStmt c2 s1 (Some s2), p4))"
    by (simp add: statement_Suc)
  have "expr (n + 2) (step p0) = Some (Inr (c1, p1))"
    using assms(2) by (rule expr_fuel_mono(1))
  then have cond: "expr (Suc (Suc n)) (step p0) = Some (Inr (c1, p1))"
    by simp
  from cond middle assms(8)
  have outer: "IfStatement (Suc (Suc (Suc n))) (step p0) =
      Some (Inr (IfStmt c1 (IfStmt c2 s1 (Some s2)) None, p4))"
    by (simp add: IfStatement_Suc)
  from assms(1) have "\<not> looking_at Print p0"
    by (auto dest: looking_at_unique)
  with assms(1) outer
  have "statement (Suc (Suc (Suc (Suc n)))) p0 =
      Some (Inr (IfStmt c1 (IfStmt c2 s1 (Some s2)) None, p4))"
    by (simp add: statement_Suc)
  moreover have "n + 4 = Suc (Suc (Suc (Suc n)))"
    by simp
  ultimately show ?thesis
    by (simp only:)
qed

lemma single_statement_program:
  assumes "statement n (new_Parser toks) = Some (Inr (s, q))" and "at_end q"
    and "\<not> at_end (new_Parser toks)"
  shows "parse toks = Some (Inr [s])"
proof -
  let ?p = "new_Parser toks"
  have e: "fuel_bound toks = Suc (Suc (16 * length toks + 14))"
    by (simp add: fuel_bound_def)
  have "statement (Suc (16 * length toks + 14)) ?p \<noteq> None"
    using stmt_fuel_enough(1) [of "Suc (16 * length toks + 14)" ?p] by auto
  then obtain r where r: "statement (Suc (16 * length toks + 14)) ?p = Some r"
    by auto
  with assms(1) have r: "statement (Suc (16 * length toks + 14)) ?p = Some (Inr (s, q))"
    using statement_fuel_agree by blast
  from r assms(2,3) show ?thesis
    by (simp only: parse_def parse_fuel_def e parse_loop_Suc) simp
qed

lemma looking_at_not_at_end: "looking_at ty p \<Longrightarrow> \<not> at_end p"
  by (auto simp add: looking_at_def at_end_def)

section \<open>The cursor primitives\<close>

lemma advance_eq:
  "advance p = (if at_end p then previous p else Inr (tokens p ! current p, step p))"
  by (auto simp add: advance_def atEnd_eq previous_def step_def at_end_def)

lemma call_cases:
  assumes "call c p = Inr q"
  shows "q = p \<or> \<not> at_end p \<and> q = step p"
proof (cases c)
  case Advance
  with assms show ?thesis
    by (auto simp add: advance_eq previous_def split: if_splits)
next
  case (Match ty)
  with assms looking_at_not_at_end [of ty p] show ?thesis
    by (auto simp add: match_eq split: if_splits)
next
  case (Consume ty err)
  with assms looking_at_not_at_end [of ty p] show ?thesis
    by (auto simp add: consume_eq split: if_splits)
qed (use assms in \<open>auto simp add: atEnd_eq check_eq peek_def previous_def split: if_splits\<close>)

lemma call_cursor:
  assumes "call c p = Inr q"
  shows "tokens q = tokens p \<and> current p \<le> current q \<and>
    (current p \<le> length (tokens p) \<longrightarrow> current q \<le> length (tokens p)) \<and>
    (\<forall>i. current p \<le> i \<and> i < length (tokens p) \<and> type (tokens p ! i) = Eof \<longrightarrow>
       current q \<le> i)"
proof -
  have "Suc (current p) \<le> i"
    if "\<not> at_end p" "current p \<le> i" "type (tokens p ! i) = Eof" for i
    using that by (cases "i = current p") (auto simp add: at_end_def)
  with call_cases [OF assms] show ?thesis
    by (auto simp add: at_end_def)
qed

lemma calls_cursor:
  "calls cs p = Inr q \<Longrightarrow>
     tokens q = tokens p \<and> current p \<le> current q \<and>
     (current p \<le> length (tokens p) \<longrightarrow> current q \<le> length (tokens p)) \<and>
     (\<forall>i. current p \<le> i \<and> i < length (tokens p) \<and> type (tokens p ! i) = Eof \<longrightarrow>
        current q \<le> i)"
proof (induction cs arbitrary: p)
  case Nil
  then show ?case by simp
next
  case (Cons c cs)
  from Cons.prems obtain r where c: "call c p = Inr r" and cs: "calls cs r = Inr q"
    by (auto split: sum.splits)
  from call_cursor [OF c] have r: "tokens r = tokens p" "current p \<le> current r"
    "current p \<le> length (tokens p) \<Longrightarrow> current r \<le> length (tokens p)"
    "\<And>i. current p \<le> i \<Longrightarrow> i < length (tokens p) \<Longrightarrow> type (tokens p ! i) = Eof \<Longrightarrow>
      current r \<le> i"
    by simp_all
  from Cons.IH [OF cs] r(1) have q: "tokens q = tokens p" "current r \<le> current q"
    "current r \<le> length (tokens p) \<Longrightarrow> current q \<le> length (tokens p)"
    "\<And>i. current r \<le> i \<Longrightarrow> i < length (tokens p) \<Longrightarrow> type (tokens p ! i) = Eof \<Longrightarrow>
      current q \<le> i"
    by simp_all
  from r(2) q(2) have "current p \<le> current q"
    by simp
  with q(1) r(3) q(3) r(4) q(4) show ?case
    by blast
qed

lemma calls_at_Eof:
  assumes "current p < length (tokens p)" and "type (tokens p ! current p) = Eof"
    and "calls cs p = Inr q"
  shows "q = p"
  using assms(3)
proof (induction cs)
  case Nil
  then show ?case by simp
next
  case (Cons c cs)
  from Cons.prems obtain r where c: "call c p = Inr r" and cs: "calls cs r = Inr q"
    by (auto split: sum.splits)
  from assms(2) call_cases [OF c] have "r = p"
    by (simp add: at_end_def)
  with cs Cons.IH show ?case
    by simp
qed

section \<open>The cursor does not pass an identifier\<close>

lemma var_limit_is_var:
  "var_limit toks < length toks \<Longrightarrow> type (toks ! var_limit toks) \<in> {Identifier, LetT}"
  unfolding var_limit_def
  using nth_length_takeWhile [of "\<lambda>t. type t \<notin> {Identifier, LetT}" toks] by simp

lemma before_var_limit: "i < var_limit toks \<Longrightarrow> type (toks ! i) \<notin> {Identifier, LetT}"
  unfolding var_limit_def
  using nth_mem [of i "takeWhile (\<lambda>t. type t \<notin> {Identifier, LetT}) toks"]
  by (auto simp add: takeWhile_nth dest: set_takeWhileD)

lemma var_ahead_step:
  assumes "looking_at ty p"
  shows "ty \<notin> {Identifier, LetT} \<longrightarrow> var_ahead p \<longrightarrow> var_ahead (step p)"
proof (intro impI)
  assume ty: "ty \<notin> {Identifier, LetT}" and a: "var_ahead p"
  from assms have t: "type (tokens p ! current p) = ty"
    by (simp add: looking_at_def)
  from a var_limit_is_var [of "tokens p"] t ty have "current p \<noteq> var_limit (tokens p)"
    by (auto simp add: var_ahead_def)
  with a show "var_ahead (step p)"
    by (simp add: var_ahead_def)
qed

lemma var_ahead_current: "var_ahead p \<Longrightarrow> current p < length (tokens p)"
  by (simp add: var_ahead_def)

lemma expr_var_ahead:
  fixes p :: "'v Parser"
  shows "expr n p = Some (Inr (a, q)) \<Longrightarrow> var_ahead p \<longrightarrow> var_ahead q"
    and "equality n p = Some (Inr (a, q)) \<Longrightarrow> var_ahead p \<longrightarrow> var_ahead q"
    and "equality_loop n l p = Some (Inr (a, q)) \<Longrightarrow> var_ahead p \<longrightarrow> var_ahead q"
    and "comparison n p = Some (Inr (a, q)) \<Longrightarrow> var_ahead p \<longrightarrow> var_ahead q"
    and "comparison_loop n l p = Some (Inr (a, q)) \<Longrightarrow> var_ahead p \<longrightarrow> var_ahead q"
    and "term n p = Some (Inr (a, q)) \<Longrightarrow> var_ahead p \<longrightarrow> var_ahead q"
    and "term_loop n l p = Some (Inr (a, q)) \<Longrightarrow> var_ahead p \<longrightarrow> var_ahead q"
    and "factor n p = Some (Inr (a, q)) \<Longrightarrow> var_ahead p \<longrightarrow> var_ahead q"
    and "factor_loop n l p = Some (Inr (a, q)) \<Longrightarrow> var_ahead p \<longrightarrow> var_ahead q"
    and "unary n p = Some (Inr (a, q)) \<Longrightarrow> var_ahead p \<longrightarrow> var_ahead q"
    and "primary n p = Some (Inr (a, q)) \<Longrightarrow> var_ahead p \<longrightarrow> var_ahead q"
proof (induction n p and n p and n l p and n p and n l p and n p and n l p and n p and n l p
    and n p and n p arbitrary: a q and a q and a q and a q and a q and a q and a q and a q
    and a q and a q and a q rule: expr_fuel_induct)
  case (expr n p)
  from expr.prems show ?case by (auto dest!: expr.IH)
next
  case (equality n p)
  from equality.prems show ?case
    by (auto simp add: andThen_Inr_iff dest!: equality.IH)
next
  case (equality_loop n l p)
  from equality_loop.prems show ?case
    by (auto simp add: expr_Suc andThen_Inr_iff split: if_splits
        dest!: equality_loop.IH var_ahead_step)
next
  case (comparison n p)
  from comparison.prems show ?case
    by (auto simp add: andThen_Inr_iff dest!: comparison.IH)
next
  case (comparison_loop n l p)
  from comparison_loop.prems show ?case
    by (auto simp add: expr_Suc andThen_Inr_iff split: if_splits
        dest!: comparison_loop.IH var_ahead_step)
next
  case (term_proc n p)
  from term_proc.prems show ?case
    by (auto simp add: andThen_Inr_iff dest!: term_proc.IH)
next
  case (term_loop n l p)
  from term_loop.prems show ?case
    by (auto simp add: expr_Suc andThen_Inr_iff split: if_splits
        dest!: term_loop.IH var_ahead_step)
next
  case (factor n p)
  from factor.prems show ?case
    by (auto simp add: andThen_Inr_iff dest!: factor.IH)
next
  case (factor_loop n l p)
  from factor_loop.prems show ?case
    by (auto simp add: expr_Suc andThen_Inr_iff split: if_splits
        dest!: factor_loop.IH var_ahead_step)
next
  case (unary n p)
  from unary.prems show ?case
    by (auto simp add: expr_Suc andThen_Inr_iff split: if_splits
        dest!: unary.IH var_ahead_step)
next
  case (primary n p)
  from primary.prems show ?case
    by (auto simp add: expr_Suc andThen_Inr_iff split: if_splits
        dest!: primary.IH var_ahead_step)
qed simp_all

lemma stmt_var_ahead:
  fixes p :: "'v Parser"
  shows "statement n p = Some (Inr (s, q)) \<Longrightarrow> var_ahead p \<longrightarrow> var_ahead q"
    and "blockStmt n p = Some (Inr (s, q)) \<Longrightarrow> var_ahead p \<longrightarrow> var_ahead q"
    and "blockStmt_loop n ss p = Some (Inr (ss', q)) \<Longrightarrow> var_ahead p \<longrightarrow> var_ahead q"
    and "printStatement n p = Some (Inr (s, q)) \<Longrightarrow> var_ahead p \<longrightarrow> var_ahead q"
    and "IfStatement n p = Some (Inr (s, q)) \<Longrightarrow> var_ahead p \<longrightarrow> var_ahead q"
    and "expressionStatement n p = Some (Inr (s, q)) \<Longrightarrow> var_ahead p \<longrightarrow> var_ahead q"
proof (induction n p and n p and n ss p and n p and n p and n p
    arbitrary: s q and s q and ss' q and s q and s q and s q rule: stmt_fuel_induct)
  case (statement n p)
  from statement.prems show ?case
    by (auto simp add: stmt_Suc split: if_splits dest!: statement.IH var_ahead_step)
next
  case (blockStmt n p)
  from blockStmt.prems show ?case
    by (auto simp add: stmt_Suc andThen_Inr_iff split: if_splits
        dest!: blockStmt.IH var_ahead_step)
next
  case (blockStmt_loop n ss p)
  from blockStmt_loop.prems show ?case
    by (auto simp add: stmt_Suc andThen_Inr_iff split: if_splits dest!: blockStmt_loop.IH)
next
  case (printStatement n p)
  from printStatement.prems show ?case
    by (auto simp add: stmt_Suc andThen_Inr_iff split: if_splits
        dest!: expr_var_ahead(1) var_ahead_step)
next
  case (IfStatement n p)
  from IfStatement.prems show ?case
    by (auto simp add: stmt_Suc andThen_Inr_iff split: if_splits
        dest!: expr_var_ahead(1) IfStatement.IH var_ahead_step)
next
  case (expressionStatement n p)
  from expressionStatement.prems show ?case
    by (auto simp add: stmt_Suc andThen_Inr_iff split: if_splits
        dest!: expr_var_ahead(1) var_ahead_step)
qed simp_all

lemma parse_loop_var_ahead:
  "parse_loop n ss p = Some (Inr (ss', q)) \<Longrightarrow> var_ahead p \<longrightarrow> var_ahead q"
proof (induction n arbitrary: ss p)
  case 0
  then show ?case by simp
next
  case (Suc n)
  from Suc.prems show ?case
    by (auto simp add: parse_loop_Suc andThen_Inr_iff split: if_splits
        dest!: Suc.IH stmt_var_ahead(1))
qed

lemma expr_var_in_bounds:
  fixes p :: "'v Parser"
  shows "expr n p = Some (Inl OutOfBounds) \<Longrightarrow> \<not> var_ahead p"
    and "equality n p = Some (Inl OutOfBounds) \<Longrightarrow> \<not> var_ahead p"
    and "equality_loop n l p = Some (Inl OutOfBounds) \<Longrightarrow> \<not> var_ahead p"
    and "comparison n p = Some (Inl OutOfBounds) \<Longrightarrow> \<not> var_ahead p"
    and "comparison_loop n l p = Some (Inl OutOfBounds) \<Longrightarrow> \<not> var_ahead p"
    and "term n p = Some (Inl OutOfBounds) \<Longrightarrow> \<not> var_ahead p"
    and "term_loop n l p = Some (Inl OutOfBounds) \<Longrightarrow> \<not> var_ahead p"
    and "factor n p = Some (Inl OutOfBounds) \<Longrightarrow> \<not> var_ahead p"
    and "factor_loop n l p = Some (Inl OutOfBounds) \<Longrightarrow> \<not> var_ahead p"
    and "unary n p = Some (Inl OutOfBounds) \<Longrightarrow> \<not> var_ahead p"
    and "primary n p = Some (Inl OutOfBounds) \<Longrightarrow> \<not> var_ahead p"
proof (induction n p and n p and n l p and n p and n l p and n p and n l p and n p and n l p
    and n p and n p rule: expr_fuel_induct)
  case (expr n p)
  from expr.prems show ?case by (auto dest!: expr.IH)
next
  case (equality n p)
  from equality.prems show ?case
    by (auto elim!: andThen_InlE dest!: equality.IH expr_var_ahead(4))
next
  case (equality_loop n l p)
  from equality_loop.prems show ?case
    by (auto simp add: expr_Suc split: if_splits elim!: andThen_InlE
        dest!: equality_loop.IH expr_var_ahead(4) var_ahead_step)
next
  case (comparison n p)
  from comparison.prems show ?case
    by (auto elim!: andThen_InlE dest!: comparison.IH expr_var_ahead(6))
next
  case (comparison_loop n l p)
  from comparison_loop.prems show ?case
    by (auto simp add: expr_Suc split: if_splits elim!: andThen_InlE
        dest!: comparison_loop.IH expr_var_ahead(6) var_ahead_step)
next
  case (term_proc n p)
  from term_proc.prems show ?case
    by (auto elim!: andThen_InlE dest!: term_proc.IH expr_var_ahead(8))
next
  case (term_loop n l p)
  from term_loop.prems show ?case
    by (auto simp add: expr_Suc split: if_splits elim!: andThen_InlE
        dest!: term_loop.IH expr_var_ahead(8) var_ahead_step)
next
  case (factor n p)
  from factor.prems show ?case
    by (auto elim!: andThen_InlE dest!: factor.IH expr_var_ahead(10))
next
  case (factor_loop n l p)
  from factor_loop.prems show ?case
    by (auto simp add: expr_Suc split: if_splits elim!: andThen_InlE
        dest!: factor_loop.IH expr_var_ahead(10) var_ahead_step)
next
  case (unary n p)
  from unary.prems show ?case
    by (auto simp add: expr_Suc split: if_splits elim!: andThen_InlE
        dest!: unary.IH var_ahead_step)
next
  case (primary n p)
  from primary.prems show ?case
    by (auto simp add: expr_Suc var_ahead_current split: if_splits elim!: andThen_InlE
        dest!: primary.IH var_ahead_step)
qed simp_all

lemma stmt_var_in_bounds:
  fixes p :: "'v Parser"
  shows "statement n p = Some (Inl OutOfBounds) \<Longrightarrow> \<not> var_ahead p"
    and "blockStmt n p = Some (Inl OutOfBounds) \<Longrightarrow> \<not> var_ahead p"
    and "blockStmt_loop n ss p = Some (Inl OutOfBounds) \<Longrightarrow> \<not> var_ahead p"
    and "printStatement n p = Some (Inl OutOfBounds) \<Longrightarrow> \<not> var_ahead p"
    and "IfStatement n p = Some (Inl OutOfBounds) \<Longrightarrow> \<not> var_ahead p"
    and "expressionStatement n p = Some (Inl OutOfBounds) \<Longrightarrow> \<not> var_ahead p"
proof (induction n p and n p and n ss p and n p and n p and n p rule: stmt_fuel_induct)
  case (statement n p)
  from statement.prems show ?case
    by (auto simp add: stmt_Suc split: if_splits dest!: statement.IH var_ahead_step)
next
  case (blockStmt n p)
  from blockStmt.prems show ?case
    by (auto simp add: stmt_Suc split: if_splits elim!: andThen_InlE dest!: blockStmt.IH)
next
  case (blockStmt_loop n ss p)
  from blockStmt_loop.prems show ?case
    by (auto simp add: stmt_Suc split: if_splits elim!: andThen_InlE
        dest!: blockStmt_loop.IH stmt_var_ahead(1))
next
  case (printStatement n p)
  from printStatement.prems show ?case
    by (auto simp add: stmt_Suc split: if_splits elim!: andThen_InlE
        dest!: expr_var_in_bounds(1))
next
  case (IfStatement n p)
  from IfStatement.prems show ?case
    by (auto simp add: stmt_Suc split: if_splits elim!: andThen_InlE
        dest!: expr_var_in_bounds(1) IfStatement.IH expr_var_ahead(1) stmt_var_ahead(1)
          var_ahead_step)
next
  case (expressionStatement n p)
  from expressionStatement.prems show ?case
    by (auto simp add: stmt_Suc split: if_splits elim!: andThen_InlE
        dest!: expr_var_in_bounds(1))
qed simp_all

lemma parse_loop_var_in_bounds:
  "parse_loop n ss p = Some (Inl OutOfBounds) \<Longrightarrow> \<not> var_ahead p"
proof (induction n arbitrary: ss p)
  case 0
  then show ?case by simp
next
  case (Suc n)
  from Suc.prems show ?case
    by (auto simp add: parse_loop_Suc split: if_splits elim!: andThen_InlE
        dest!: Suc.IH stmt_var_in_bounds(1) stmt_var_ahead(1))
qed

lemma var_before_Eof:
  assumes "Identifier \<in> set (before_Eof toks) \<or> LetT \<in> set (before_Eof toks)"
  shows "var_limit toks < limit toks"
proof -
  from assms obtain t where t: "t \<in> set (takeWhile (\<lambda>t. type t \<noteq> Eof) toks)"
    and ty: "type t \<in> {Identifier, LetT}"
    by (auto simp add: before_Eof_def)
  from t obtain i where i: "i < limit toks"
    and ti: "takeWhile (\<lambda>t. type t \<noteq> Eof) toks ! i = t"
    by (auto simp add: in_set_conv_nth limit_def)
  from i ti have "toks ! i = t"
    by (simp add: limit_def takeWhile_nth)
  with ty before_var_limit [of i toks] have "var_limit toks \<le> i"
    by (cases "i < var_limit toks") auto
  with i show ?thesis
    by simp
qed

lemma variable_token_fails:
  assumes "Identifier \<in> set (before_Eof toks) \<or> LetT \<in> set (before_Eof toks)"
  shows "\<exists>msg. parse toks = Some (Inl (SyntaxError msg))"
proof -
  from var_before_Eof [OF assms] limit_le_length [of toks]
  have v: "var_limit toks < limit toks" and a: "var_ahead (new_Parser toks)"
    by (simp_all add: var_ahead_def new_Parser_def)
  obtain r where r: "parse_loop (fuel_bound toks) [] (new_Parser toks) = Some r"
    using parse_loop_enough [of toks "fuel_bound toks"] by auto
  show ?thesis
  proof (cases r)
    case (Inl e)
    with r a parse_loop_var_in_bounds [of "fuel_bound toks" "[]" "new_Parser toks"]
    show ?thesis
      by (cases e) (auto simp add: parse_def parse_fuel_def)
  next
    case (Inr x)
    then obtain ss q where x: "r = Inr (ss, q)"
      by (cases x) auto
    from parse_loop_frame [OF r [unfolded x]] have t: "tokens q = toks" and e: "at_end q"
      by (simp_all add: frame_def new_Parser_def)
    from parse_loop_var_ahead [OF r [unfolded x]] a t
    have "current q \<le> var_limit toks" "var_limit toks < length toks"
      by (simp_all add: var_ahead_def)
    with v before_limit [of "current q" toks] e t show ?thesis
      by (auto simp add: at_end_def)
  qed
qed

section \<open>The claims\<close>

subsection \<open>C1: a single number\<close>

text \<open>
  C1, as stated, fails: a \<open>Number\<close> token followed directly by \<open>Eof\<close> is no statement,
  since \<open>expressionStatement\<close> demands the semicolon; the parser raises the syntax error of
  \<open>consume\<close>.
\<close>

theorem number_without_semicolon:
  "parse [token Number ''1'' (Scalar (1::int)), token Eof [] Nullptr] =
     Some (Inl (SyntaxError ''Expect ';' afer expression'')) \<and>
   parse [token Number ''1'' (Scalar (1::int)), token Eof [] Nullptr] \<noteq>
     Some (Inr [ExpressionStmt (LiteralExpr (Scalar 1))])"
  by (simp add: run_simps)

text \<open>
  C1, amended: for every token sequence that consists of a \<open>Number\<close> token, a
  \<open>Semicolon\<close> token and an \<open>Eof\<close> token, \<open>parse\<close> returns exactly one statement, an
  \<open>ExpressionStmt\<close> whose expression is the \<open>LiteralExpr\<close> that carries the literal value
  of the number token.
\<close>

theorem number_statement:
  "parse [token Number lx v, token Semicolon lx' v', token Eof lx'' v''] =
     Some (Inr [ExpressionStmt (LiteralExpr v)])"
  by (simp add: run_simps)

subsection \<open>C2: a token sequence without the end marker\<close>

text \<open>
  C2 fails on the code: on the sequence of the single token \<open>print\<close>, with no \<open>Eof\<close>
  after it, \<open>primary\<close> finds no expression and builds its error message from \<open>peek()\<close>,
  which reads \<open>tokens[1]\<close> of a vector of size 1.
\<close>

theorem missing_Eof_out_of_bounds:
  "parse [token Print ''print'' (Nullptr :: int any)] = Some (Inl OutOfBounds)"
  by (simp add: run_simps)

subsection \<open>C3: an unterminated block\<close>

text \<open>
  C3: for every token sequence with an end marker in which some opening brace has no
  closing brace before the first end marker, \<open>parse\<close> returns (it never reaches the
  bound on its call depth, so the loop of \<open>blockStmt\<close> does not run forever), and what it
  returns is a syntax error. The witness is \<open>{ print 1 ;\<close> followed by \<open>Eof\<close>.
\<close>

theorem unterminated_block_fails:
  assumes "Eof \<in> type ` set toks"
    and "0 < unclosed LeftBrace RightBrace 0 (before_Eof toks)"
  shows "\<exists>msg. parse toks = Some (Inl (SyntaxError msg))"
  using assms by (intro unclosed_bracket_fails) (simp_all add: brackets_def)

theorem unterminated_block_fails_witness:
  "Eof \<in> type ` set [token LeftBrace ''{'' Nullptr, token Print ''print'' Nullptr,
      token Number ''1'' (Scalar (1::int)), token Semicolon '';'' Nullptr,
      token Eof [] Nullptr] \<and>
   0 < unclosed LeftBrace RightBrace 0 (before_Eof
     [token LeftBrace ''{'' Nullptr, token Print ''print'' Nullptr,
      token Number ''1'' (Scalar (1::int)), token Semicolon '';'' Nullptr,
      token Eof [] Nullptr]) \<and>
   (\<exists>msg. parse [token LeftBrace ''{'' Nullptr, token Print ''print'' Nullptr,
      token Number ''1'' (Scalar (1::int)), token Semicolon '';'' Nullptr,
      token Eof [] Nullptr] = Some (Inl (SyntaxError msg)))"
proof -
  let ?toks = "[token LeftBrace ''{'' Nullptr, token Print ''print'' Nullptr,
      token Number ''1'' (Scalar (1::int)), token Semicolon '';'' Nullptr,
      token Eof [] Nullptr]"
  have h: "Eof \<in> type ` set ?toks" "0 < unclosed LeftBrace RightBrace 0 (before_Eof ?toks)"
    by (simp_all add: token_def before_Eof_def)
  from unterminated_block_fails [OF h] h show ?thesis by simp
qed

subsection \<open>C4: left associativity\<close>

text \<open>
  C4: two binary operators of the same precedence level associate to the left: the
  tokens of \<open>a o1 b o2 c ;\<close> followed by \<open>Eof\<close> parse to the expression statement of
  \<open>Binary (Binary a o1 b) o2 c\<close>. The witness is \<open>1 - 2 - 3 ;\<close>.
\<close>

theorem left_associative:
  assumes "0 < binary_level o1" and "binary_level o2 = binary_level o1"
  shows "parse [token Number l1 a, token o1 l2 x, token Number l3 b, token o2 l4 y,
                token Number l5 c, token Semicolon l6 z, token Eof l7 w] =
         Some (Inr [ExpressionStmt
           (BinaryExpr (BinaryExpr (LiteralExpr a) (token o1 l2 x) (LiteralExpr b))
              (token o2 l4 y) (LiteralExpr c))])"
proof -
  from assms have
    "o1 \<in> {BangEqual, EqualEqual} \<and> o2 \<in> {BangEqual, EqualEqual} \<or>
     o1 \<in> {Greater, GreaterEqual, Less, LessEqual} \<and>
       o2 \<in> {Greater, GreaterEqual, Less, LessEqual} \<or>
     o1 \<in> {PlusT, Minus} \<and> o2 \<in> {PlusT, Minus} \<or>
     o1 \<in> {Star, Slash} \<and> o2 \<in> {Star, Slash}"
    by (auto simp add: binary_level_def split: if_splits)
  then show ?thesis
    by (elim disjE conjE insertE emptyE; simp add: run_simps)
qed

theorem left_associative_witness:
  "0 < binary_level Minus \<and> binary_level Minus = binary_level Minus \<and>
   parse [token Number ''1'' (Scalar (1::int)), token Minus ''-'' Nullptr,
          token Number ''2'' (Scalar 2), token Minus ''-'' Nullptr,
          token Number ''3'' (Scalar 3), token Semicolon '';'' Nullptr,
          token Eof [] Nullptr] =
     Some (Inr [ExpressionStmt
       (BinaryExpr
          (BinaryExpr (LiteralExpr (Scalar 1)) (token Minus ''-'' Nullptr)
             (LiteralExpr (Scalar 2)))
          (token Minus ''-'' Nullptr) (LiteralExpr (Scalar 3)))])"
proof -
  have h: "0 < binary_level Minus" "binary_level Minus = binary_level Minus"
    by (simp_all add: binary_level_def)
  from left_associative [OF h] h show ?thesis by simp
qed

subsection \<open>C5: precedence\<close>

text \<open>
  C5: a multiplicative operator binds tighter than an additive one: the tokens of
  \<open>a o1 b o2 c ;\<close> followed by \<open>Eof\<close>, with \<open>o1\<close> one of \<open>+\<close>, \<open>-\<close> and \<open>o2\<close> one of
  \<open>*\<close>, \<open>/\<close>, parse to the expression statement of \<open>Binary a o1 (Binary b o2 c)\<close>. The
  witness is \<open>1 + 2 * 3 ;\<close>.
\<close>

theorem multiplication_binds_tighter:
  assumes "o1 \<in> {PlusT, Minus}" and "o2 \<in> {Star, Slash}"
  shows "parse [token Number l1 a, token o1 l2 x, token Number l3 b, token o2 l4 y,
                token Number l5 c, token Semicolon l6 z, token Eof l7 w] =
         Some (Inr [ExpressionStmt
           (BinaryExpr (LiteralExpr a) (token o1 l2 x)
              (BinaryExpr (LiteralExpr b) (token o2 l4 y) (LiteralExpr c)))])"
  using assms by (elim insertE emptyE; simp add: run_simps)

theorem multiplication_binds_tighter_witness:
  "PlusT \<in> {PlusT, Minus} \<and> Star \<in> {Star, Slash} \<and>
   parse [token Number ''1'' (Scalar (1::int)), token PlusT ''+'' Nullptr,
          token Number ''2'' (Scalar 2), token Star ''*'' Nullptr,
          token Number ''3'' (Scalar 3), token Semicolon '';'' Nullptr,
          token Eof [] Nullptr] =
     Some (Inr [ExpressionStmt
       (BinaryExpr (LiteralExpr (Scalar 1)) (token PlusT ''+'' Nullptr)
          (BinaryExpr (LiteralExpr (Scalar 2)) (token Star ''*'' Nullptr)
             (LiteralExpr (Scalar 3))))])"
proof -
  have h: "PlusT \<in> {PlusT, Minus}" "Star \<in> {Star, Slash}" by simp_all
  from multiplication_binds_tighter [OF h] h show ?thesis by simp
qed

subsection \<open>C6: an unclosed parenthesis\<close>

text \<open>
  C6: for every token sequence with an end marker in which some opening parenthesis
  has no closing parenthesis before the first end marker, \<open>parse\<close> returns a syntax
  error and no statements. The witness is \<open>( 1 + 2\<close> followed by \<open>Eof\<close>.
\<close>

theorem unclosed_paren_fails:
  assumes "Eof \<in> type ` set toks"
    and "0 < unclosed LeftParen RightParen 0 (before_Eof toks)"
  shows "\<exists>msg. parse toks = Some (Inl (SyntaxError msg))"
  using assms by (intro unclosed_bracket_fails) (simp_all add: brackets_def)

theorem unclosed_paren_fails_witness:
  "Eof \<in> type ` set [token LeftParen ''('' Nullptr, token Number ''1'' (Scalar (1::int)),
      token PlusT ''+'' Nullptr, token Number ''2'' (Scalar 2), token Eof [] Nullptr] \<and>
   0 < unclosed LeftParen RightParen 0 (before_Eof
     [token LeftParen ''('' Nullptr, token Number ''1'' (Scalar (1::int)),
      token PlusT ''+'' Nullptr, token Number ''2'' (Scalar 2), token Eof [] Nullptr]) \<and>
   (\<exists>msg. parse [token LeftParen ''('' Nullptr, token Number ''1'' (Scalar (1::int)),
      token PlusT ''+'' Nullptr, token Number ''2'' (Scalar 2), token Eof [] Nullptr] =
      Some (Inl (SyntaxError msg)))"
proof -
  let ?toks = "[token LeftParen ''('' Nullptr, token Number ''1'' (Scalar (1::int)),
      token PlusT ''+'' Nullptr, token Number ''2'' (Scalar 2), token Eof [] Nullptr]"
  have h: "Eof \<in> type ` set ?toks" "0 < unclosed LeftParen RightParen 0 (before_Eof ?toks)"
    by (simp_all add: token_def before_Eof_def)
  from unclosed_paren_fails [OF h] h show ?thesis by simp
qed

subsection \<open>C7: the dangling else\<close>

text \<open>
  C7: let the cursor be on an \<open>if\<close> whose condition is followed by a second \<open>if\<close>, with
  its condition and a statement, then one \<open>else\<close> with a statement, and no further
  \<open>else\<close>. Then \<open>statement\<close> attaches the else branch to the inner \<open>IfStmt\<close> and gives the
  outer one no else branch; when these tokens are the whole program, \<open>parse\<close> returns
  that one statement. The conditions and branches are whatever \<open>expr\<close> and \<open>statement\<close>
  parse there, within some call depth \<open>n\<close>. The witness is
  \<open>if true if false print 1; else print 2;\<close>.
\<close>

theorem dangling_else:
  assumes "looking_at IfT p0"
    and "expr n (step p0) = Some (Inr (c1, p1))"
    and "looking_at IfT p1"
    and "expr n (step p1) = Some (Inr (c2, p2))"
    and "statement n p2 = Some (Inr (s1, p3))"
    and "looking_at Else p3"
    and "statement n (step p3) = Some (Inr (s2, p4))"
    and "\<not> looking_at Else p4"
  shows "statement (n + 4) p0 = Some (Inr (IfStmt c1 (IfStmt c2 s1 (Some s2)) None, p4)) \<and>
    (p0 = new_Parser toks \<and> at_end p4 \<longrightarrow>
       parse toks = Some (Inr [IfStmt c1 (IfStmt c2 s1 (Some s2)) None]))"
  using nested_if_statement [OF assms] looking_at_not_at_end [OF assms(1)]
  by (auto intro: single_statement_program)

theorem dangling_else_witness:
  "looking_at IfT (new_Parser
     [token IfT ''if'' Nullptr, token TrueT ''true'' Nullptr, token IfT ''if'' Nullptr,
      token FalseT ''false'' Nullptr, token Print ''print'' Nullptr,
      token Number ''1'' (Scalar (1::int)), token Semicolon '';'' Nullptr,
      token Else ''else'' Nullptr, token Print ''print'' Nullptr,
      token Number ''2'' (Scalar 2), token Semicolon '';'' Nullptr,
      token Eof [] Nullptr]) \<and>
   parse
     [token IfT ''if'' Nullptr, token TrueT ''true'' Nullptr, token IfT ''if'' Nullptr,
      token FalseT ''false'' Nullptr, token Print ''print'' Nullptr,
      token Number ''1'' (Scalar (1::int)), token Semicolon '';'' Nullptr,
      token Else ''else'' Nullptr, token Print ''print'' Nullptr,
      token Number ''2'' (Scalar 2), token Semicolon '';'' Nullptr,
      token Eof [] Nullptr] =
   Some (Inr [IfStmt (LiteralExpr (Boolean True))
     (IfStmt (LiteralExpr (Boolean False)) (PrintStmt (LiteralExpr (Scalar 1)))
        (Some (PrintStmt (LiteralExpr (Scalar 2)))))
     None])"
proof -
  let ?W = "[token IfT ''if'' Nullptr, token TrueT ''true'' Nullptr, token IfT ''if'' Nullptr,
      token FalseT ''false'' Nullptr, token Print ''print'' Nullptr,
      token Number ''1'' (Scalar (1::int)), token Semicolon '';'' Nullptr,
      token Else ''else'' Nullptr, token Print ''print'' Nullptr,
      token Number ''2'' (Scalar 2), token Semicolon '';'' Nullptr,
      token Eof [] Nullptr]"
  let ?at = "\<lambda>k. \<lparr>tokens = ?W, current = k\<rparr>"
  have h1: "looking_at IfT (new_Parser ?W)"
    by (simp add: run_simps)
  have h2: "expr 12 (step (new_Parser ?W)) = Some (Inr (LiteralExpr (Boolean True), ?at 2))"
    by (simp add: run_simps)
  have h3: "looking_at IfT (?at 2)"
    by (simp add: run_simps)
  have h4: "expr 12 (step (?at 2)) = Some (Inr (LiteralExpr (Boolean False), ?at 4))"
    by (simp add: run_simps)
  have h5: "statement 12 (?at 4) = Some (Inr (PrintStmt (LiteralExpr (Scalar 1)), ?at 7))"
    by (simp add: run_simps)
  have h6: "looking_at Else (?at 7)"
    by (simp add: run_simps)
  have h7: "statement 12 (step (?at 7)) =
      Some (Inr (PrintStmt (LiteralExpr (Scalar 2)), ?at 11))"
    by (simp add: run_simps)
  have h8: "\<not> looking_at Else (?at 11)"
    by (simp add: run_simps)
  have h9: "at_end (?at 11)"
    by (simp add: run_simps)
  from dangling_else [OF h1 h2 h3 h4 h5 h6 h7 h8, of ?W] h9 h1 show ?thesis
    by blast
qed

subsection \<open>C8: the cursor\<close>

text \<open>
  C8: over every sequence of calls of the primitives \<open>atEnd\<close>, \<open>peek\<close>, \<open>advance\<close>,
  \<open>previous\<close>, \<open>check\<close>, \<open>match\<close> and \<open>consume\<close> that raises nothing, the tokens stay the
  same, the cursor does not move back, it does not pass the size of the sequence if it
  was within it, and it does not pass an end marker that was ahead of it or under it.
  Once the cursor is on an end marker, it stays there over every such sequence, and
  \<open>peek\<close> returns that end marker.
\<close>

theorem cursor_monotone:
  "(calls cs p = Inr q \<longrightarrow>
      tokens q = tokens p \<and> current p \<le> current q \<and>
      (current p \<le> length (tokens p) \<longrightarrow> current q \<le> length (tokens p)) \<and>
      (\<forall>i. current p \<le> i \<and> i < length (tokens p) \<and> type (tokens p ! i) = Eof \<longrightarrow>
         current q \<le> i)) \<and>
   (current p < length (tokens p) \<and> type (tokens p ! current p) = Eof \<and>
    calls cs p = Inr q \<longrightarrow>
      current q = current p \<and> peek q = Inr (tokens p ! current p, q))"
  using calls_cursor [of cs p q] calls_at_Eof [of p cs q]
  by (auto simp add: peek_def)

theorem cursor_monotone_witness:
  "calls [Match Number, Advance, Peek, Match Eof]
     \<lparr>tokens = [token Number ''1'' (Scalar (1::int)), token Eof [] Nullptr], current = 0\<rparr> =
     Inr \<lparr>tokens = [token Number ''1'' (Scalar 1), token Eof [] Nullptr], current = 1\<rparr> \<and>
   calls [Advance, Check Eof, Consume Number ''number'', AtEnd]
     \<lparr>tokens = [token Number ''1'' (Scalar (1::int)), token Eof [] Nullptr], current = 1\<rparr> =
     Inl (SyntaxError ''number'') \<and>
   calls [Advance, Check Eof, Match Eof, AtEnd]
     \<lparr>tokens = [token Number ''1'' (Scalar (1::int)), token Eof [] Nullptr], current = 1\<rparr> =
     Inr \<lparr>tokens = [token Number ''1'' (Scalar 1), token Eof [] Nullptr], current = 1\<rparr> \<and>
   peek \<lparr>tokens = [token Number ''1'' (Scalar (1::int)), token Eof [] Nullptr], current = 1\<rparr> =
     Inr (token Eof [] Nullptr,
       \<lparr>tokens = [token Number ''1'' (Scalar 1), token Eof [] Nullptr], current = 1\<rparr>)"
proof -
  let ?W = "[token Number ''1'' (Scalar (1::int)), token Eof [] Nullptr]"
  let ?at = "\<lambda>k. \<lparr>tokens = ?W, current = k\<rparr>"
  have h1: "calls [Match Number, Advance, Peek, Match Eof] (?at 0) = Inr (?at 1)"
    by (simp add: match_eq advance_eq peek_def previous_def looking_at_def at_end_def
        step_def token_def)
  have h2: "calls [Advance, Check Eof, Consume Number ''number'', AtEnd] (?at 1) =
      Inl (SyntaxError ''number'')"
    by (simp add: consume_eq check_eq advance_eq previous_def looking_at_def at_end_def
        step_def token_def)
  have h3: "calls [Advance, Check Eof, Match Eof, AtEnd] (?at 1) = Inr (?at 1)"
    by (simp add: match_eq check_eq atEnd_eq advance_eq previous_def looking_at_def
        at_end_def step_def token_def)
  have h4: "current (?at 1) < length (tokens (?at 1))" "type (tokens (?at 1) ! current (?at 1)) = Eof"
    by (simp_all add: token_def)
  have "tokens (?at 1) ! current (?at 1) = token Eof [] Nullptr"
    by simp
  with cursor_monotone [of "[Advance, Check Eof, Match Eof, AtEnd]" "?at 1" "?at 1"] h3 h4
  have "peek (?at 1) = Inr (token Eof [] Nullptr, ?at 1)"
    by simp
  with cursor_monotone [of "[Match Number, Advance, Peek, Match Eof]" "?at 0" "?at 1"]
    h1 h2 h3 show ?thesis
    by blast
qed

subsection \<open>C9: \<open>check\<close> and \<open>match\<close>\<close>

text \<open>
  C9: in every parser state and for every token type, \<open>check\<close> raises nothing and
  returns the state as it found it; \<open>match\<close> returns what \<open>check\<close> returns, with the
  cursor one position further when that is true and with the state unchanged when it is
  false.
\<close>

theorem check_match_cursor:
  "\<exists>b. check ty p = Inr (b, p) \<and>
       match ty p = Inr (b, if b then p\<lparr>current := current p + 1\<rparr> else p)"
  by (simp add: check_eq match_eq step_def)

subsection \<open>C10: no variables\<close>

text \<open>
  C10: no statement that \<open>parse\<close> returns holds a \<open>VarStmt\<close> or a \<open>VariableExpr\<close> node.
  On every token sequence with an \<open>Identifier\<close> or \<open>Let\<close> token before its first end
  marker (or anywhere, when it has no end marker), \<open>parse\<close> raises a syntax error: no
  rule of the grammar consumes such a token, so the parser fails on it where it expects
  an expression, or before it. With the cursor on such a token, \<open>expr\<close> and \<open>statement\<close>
  raise the syntax error of \<open>primary\<close> on that token (for every bound on the call depth
  that lets them reach \<open>primary\<close>), and so does \<open>parse\<close> on a sequence that starts with
  it. The witnesses are \<open>1 ;\<close>, \<open>print x ;\<close>, \<open>1 + x ;\<close> and \<open>x\<close>.
\<close>

theorem no_variable_nodes:
  "(parse toks = Some (Inr ss) \<longrightarrow> (\<forall>s \<in> set ss. \<not> has_Var s)) \<and>
   (Identifier \<in> set (before_Eof toks) \<or> LetT \<in> set (before_Eof toks) \<longrightarrow>
      (\<exists>msg. parse toks = Some (Inl (SyntaxError msg)))) \<and>
   (current p < length (tokens p) \<and> type (tokens p ! current p) \<in> {Identifier, LetT} \<longrightarrow>
      expr (n + 7) p = Some (Inl (SyntaxError
        (''Parsing Error - Unexpected token: '' @ lexeme (tokens p ! current p)))) \<and>
      statement (n + 9) p = Some (Inl (SyntaxError
        (''Parsing Error - Unexpected token: '' @ lexeme (tokens p ! current p))))) \<and>
   (type t \<in> {Identifier, LetT} \<longrightarrow>
      parse (t # rest) = Some (Inl (SyntaxError
        (''Parsing Error - Unexpected token: '' @ lexeme t))))"
  using parse_no_variable [of toks ss] variable_token_fails [of toks] expr_rejects [of p n]
    statement_rejects [of p n] parse_rejects [of t rest]
  by (simp add: list_ex_iff)

theorem no_variable_nodes_witness:
  "parse [token Number ''1'' (Scalar (1::int)), token Semicolon '';'' Nullptr,
          token Eof [] Nullptr] =
     Some (Inr [ExpressionStmt (LiteralExpr (Scalar 1))]) \<and>
   \<not> has_Var (ExpressionStmt (LiteralExpr (Scalar (1::int)))) \<and>
   Identifier \<in> set (before_Eof
     [token Print ''print'' (Nullptr :: int any), token Identifier ''x'' Nullptr,
      token Semicolon '';'' Nullptr, token Eof [] Nullptr]) \<and>
   (\<exists>msg. parse
     [token Print ''print'' (Nullptr :: int any), token Identifier ''x'' Nullptr,
      token Semicolon '';'' Nullptr, token Eof [] Nullptr] = Some (Inl (SyntaxError msg))) \<and>
   Identifier \<in> set (before_Eof
     [token Number ''1'' (Scalar (1::int)), token PlusT ''+'' Nullptr,
      token Identifier ''x'' Nullptr, token Semicolon '';'' Nullptr,
      token Eof [] Nullptr]) \<and>
   (\<exists>msg. parse
     [token Number ''1'' (Scalar (1::int)), token PlusT ''+'' Nullptr,
      token Identifier ''x'' Nullptr, token Semicolon '';'' Nullptr,
      token Eof [] Nullptr] = Some (Inl (SyntaxError msg))) \<and>
   type (token Identifier ''x'' (Nullptr :: int any)) \<in> {Identifier, LetT} \<and>
   expr 7 \<lparr>tokens = [token Identifier ''x'' (Nullptr :: int any), token Eof [] Nullptr],
            current = 0\<rparr> =
     Some (Inl (SyntaxError ''Parsing Error - Unexpected token: x'')) \<and>
   statement 9 \<lparr>tokens = [token Identifier ''x'' (Nullptr :: int any), token Eof [] Nullptr],
            current = 0\<rparr> =
     Some (Inl (SyntaxError ''Parsing Error - Unexpected token: x'')) \<and>
   parse [token Identifier ''x'' (Nullptr :: int any), token Eof [] Nullptr] =
     Some (Inl (SyntaxError ''Parsing Error - Unexpected token: x''))"
proof -
  let ?W = "[token Number ''1'' (Scalar (1::int)), token Semicolon '';'' Nullptr,
          token Eof [] Nullptr]"
  let ?P = "[token Print ''print'' (Nullptr :: int any), token Identifier ''x'' Nullptr,
      token Semicolon '';'' Nullptr, token Eof [] Nullptr]"
  let ?Q = "[token Number ''1'' (Scalar (1::int)), token PlusT ''+'' Nullptr,
      token Identifier ''x'' Nullptr, token Semicolon '';'' Nullptr,
      token Eof [] Nullptr]"
  let ?t = "token Identifier ''x'' (Nullptr :: int any)"
  let ?p = "\<lparr>tokens = [?t, token Eof [] Nullptr], current = 0\<rparr>"
  have h1: "parse ?W = Some (Inr [ExpressionStmt (LiteralExpr (Scalar 1))])"
    by (simp add: run_simps)
  have h2: "current ?p < length (tokens ?p) \<and> type (tokens ?p ! current ?p) \<in> {Identifier, LetT}"
    by (simp add: token_def)
  have h3: "type ?t \<in> {Identifier, LetT}"
    by (simp add: token_def)
  have h4: "Identifier \<in> set (before_Eof ?P)" "Identifier \<in> set (before_Eof ?Q)"
    by (simp_all add: before_Eof_def token_def)
  from no_variable_nodes [of ?P] h4(1)
  have c1: "\<exists>msg. parse ?P = Some (Inl (SyntaxError msg))"
    by blast
  from no_variable_nodes [of ?Q] h4(2)
  have c2: "\<exists>msg. parse ?Q = Some (Inl (SyntaxError msg))"
    by blast
  from no_variable_nodes [of ?W "[ExpressionStmt (LiteralExpr (Scalar 1))]" ?p 0 ?t
      "[token Eof [] Nullptr]"] h1 h2 h3
  have c3: "\<not> has_Var (ExpressionStmt (LiteralExpr (Scalar (1::int)))) \<and>
    expr 7 ?p = Some (Inl (SyntaxError ''Parsing Error - Unexpected token: x'')) \<and>
    statement 9 ?p = Some (Inl (SyntaxError ''Parsing Error - Unexpected token: x'')) \<and>
    parse [?t, token Eof [] Nullptr] =
      Some (Inl (SyntaxError ''Parsing Error - Unexpected token: x''))"
    by (simp add: token_def)
  from h1 h3 h4 c1 c2 c3 show ?thesis
    by blast
qed

end
